theory Spec2Isabelle
  imports Main "HOL-Library.Word" "HOL-Library.Monad_Syntax"
begin

section \<open>Bytes, buffers and C arithmetic\<close>

text \<open>
  The nodes of \<^verbatim>\<open>bplus.c\<close> keep their items in a flat \<^verbatim>\<open>unsigned char\<close> buffer. A
  buffer is a list of bytes and a C pointer into it is a byte offset (an \<open>int\<close>, since
  the code also forms pointers before the start of the buffer). A C \<^verbatim>\<open>int\<close> is an
  \<open>int\<close>: the counts and sizes of a node are far from the 32-bit limits.
  Every function of the model returns an \<open>option\<close>: \<open>None\<close> stands for undefined
  behaviour of the C program (a read or write outside the buffer, a division by zero, a
  read of an uninitialised local, a call through a null pointer) or for a loop that does
  not end. The error results of the code itself (\<open>-1\<close>) are ordinary return values.
\<close>

type_synonym byte = "8 word"

text \<open>\<^verbatim>\<open>a / b\<close> on C ints truncates towards zero.\<close>

definition trunc_div :: "int \<Rightarrow> int \<Rightarrow> int" where
  "trunc_div a b = (if (a < 0) = (b < 0) then \<bar>a\<bar> div \<bar>b\<bar> else - (\<bar>a\<bar> div \<bar>b\<bar>))"

definition c_div :: "int \<Rightarrow> int \<Rightarrow> int option" where
  "c_div a b = (if b = 0 then None else Some (trunc_div a b))"

text \<open>Reading \<open>len\<close> bytes at offset \<open>off\<close>, and \<^verbatim>\<open>memcpy\<close> of a byte list to an offset.\<close>

definition mem_read :: "byte list \<Rightarrow> int \<Rightarrow> int \<Rightarrow> byte list option" where
  "mem_read buf off len =
     (if 0 \<le> off \<and> 0 \<le> len \<and> off + len \<le> int (length buf)
      then Some (take (nat len) (drop (nat off) buf)) else None)"

definition mem_write :: "byte list \<Rightarrow> int \<Rightarrow> byte list \<Rightarrow> byte list option" where
  "mem_write buf off bs =
     (if 0 \<le> off \<and> off + int (length bs) \<le> int (length buf)
      then Some (take (nat off) buf @ bs @ drop (nat off + length bs) buf) else None)"

text \<open>
  \<^verbatim>\<open>memcmp\<close> on two byte ranges of the same length: the bytes compare as unsigned values.
  The C standard fixes only the sign of the result; the model returns the difference of
  the first two bytes that differ.
\<close>

fun memcmp :: "byte list \<Rightarrow> byte list \<Rightarrow> int" where
  "memcmp (x # xs) (y # ys) = (if x = y then memcmp xs ys else uint x - uint y)"
| "memcmp _ _ = 0"

text \<open>
  A comparator \<^verbatim>\<open>bp_compare_f\<close> receives two pointers and a size; the model hands it the
  two ranges of \<open>size\<close> bytes the pointers designate.
\<close>

type_synonym bp_compare_f = "byte list \<Rightarrow> byte list \<Rightarrow> int \<Rightarrow> int"

definition bp_compare :: bp_compare_f where
  "bp_compare a b sz = memcmp a b"

section \<open>Binary search over a packed item array\<close>

text \<open>
  The \<^verbatim>\<open>while (low <= high)\<close> loop of \<^verbatim>\<open>bp_bi_search_one\<close>. \<open>low\<close>, \<open>high\<close> and \<open>mid\<close> are
  offsets from \<open>content\<close>; \<open>mid\<close> and \<open>comp_res\<close> are uninitialised (\<open>None\<close>) until the
  first iteration. The result is the pair of the return value and \<^verbatim>\<open>*found_idx\<close>.
\<close>

partial_function (option) search_one_loop ::
  "bp_compare_f \<Rightarrow> byte list \<Rightarrow> int \<Rightarrow> byte list \<Rightarrow> int \<Rightarrow> int \<Rightarrow>
   int \<Rightarrow> int \<Rightarrow> int \<Rightarrow> int option \<Rightarrow> int option \<Rightarrow> (int \<times> int) option" where
  "search_one_loop compare content item_size target target_sz offset
     item_num low high mid comp_res =
   (if low \<le> high then
      do {
        let half0 = trunc_div item_num 2;
        let half_item_num = (if half0 = 0 then 1 else half0);
        let mid' = low + (half_item_num - 1) * item_size;
        t \<leftarrow> mem_read target 0 target_sz;
        k \<leftarrow> mem_read content (mid' + offset) target_sz;
        let c = compare t k target_sz;
        if 0 = c then
          do { idx \<leftarrow> c_div mid' item_size; Some (1, idx) }
        else if 0 < c then
          search_one_loop compare content item_size target target_sz offset
            (item_num - half_item_num) (mid' + item_size) high (Some mid') (Some c)
        else
          search_one_loop compare content item_size target target_sz offset
            (half_item_num - 1) low (mid' - item_size) (Some mid') (Some c)
      }
    else
      do {
        c \<leftarrow> comp_res;
        if c < 0 then do { m \<leftarrow> mid; idx \<leftarrow> c_div m item_size; Some (0, idx) }
        else do { idx \<leftarrow> c_div low item_size; Some (0, idx) }
      })"

declare search_one_loop.simps [code]

definition the_compare :: "bp_compare_f option \<Rightarrow> bp_compare_f" where
  "the_compare compare = (case compare of Some f \<Rightarrow> f | None \<Rightarrow> bp_compare)"

definition bp_bi_search_one ::
  "byte list \<Rightarrow> int \<Rightarrow> int \<Rightarrow> byte list \<Rightarrow> int \<Rightarrow> int \<Rightarrow> bp_compare_f option \<Rightarrow>
   (int \<times> int) option" where
  "bp_bi_search_one content content_len item_size target target_sz offset compare =
     (if 0 = content_len then Some (0, 0)
      else do {
        item_num \<leftarrow> c_div content_len item_size;
        search_one_loop (the_compare compare) content item_size target target_sz offset
          item_num 0 ((item_num - 1) * item_size) None None
      })"

text \<open>The scan to the left of \<^verbatim>\<open>bp_bi_search_first\<close>; the result is \<^verbatim>\<open>*found_idx\<close>.\<close>

function search_first_loop ::
  "bp_compare_f \<Rightarrow> byte list \<Rightarrow> int \<Rightarrow> byte list \<Rightarrow> int \<Rightarrow> int \<Rightarrow> int \<Rightarrow> int option" where
  "search_first_loop compare content item_size target target_sz offset found_idx =
     (if found_idx > 0 then
        (case mem_read content ((found_idx - 1) * item_size + offset) target_sz of
           None \<Rightarrow> None
         | Some k \<Rightarrow>
            (case mem_read target 0 target_sz of
               None \<Rightarrow> None
             | Some t \<Rightarrow>
                if 0 = compare k t target_sz
                then search_first_loop compare content item_size target target_sz offset
                       (found_idx - 1)
                else Some found_idx))
      else Some found_idx)"
  by pat_completeness auto
termination
  by (relation "measure (\<lambda>(compare, content, item_size, target, target_sz, offset, found_idx).
        nat found_idx)") auto

definition bp_bi_search_first ::
  "byte list \<Rightarrow> int \<Rightarrow> int \<Rightarrow> byte list \<Rightarrow> int \<Rightarrow> int \<Rightarrow> bp_compare_f option \<Rightarrow>
   (int \<times> int) option" where
  "bp_bi_search_first content content_len item_size target target_sz offset compare =
     do {
       (found, found_idx) \<leftarrow> bp_bi_search_one content content_len item_size target
          target_sz offset (Some (the_compare compare));
       if 0 = found then Some (0, found_idx)
       else do {
         idx \<leftarrow> search_first_loop (the_compare compare) content item_size target
            target_sz offset found_idx;
         Some (1, idx)
       }
     }"

text \<open>
  The scan to the right of \<^verbatim>\<open>bp_bi_search_last\<close>. The loop condition divides
  \<open>content_len\<close> by \<open>item_size\<close> on every test.
\<close>

function search_last_loop ::
  "bp_compare_f \<Rightarrow> byte list \<Rightarrow> int \<Rightarrow> int \<Rightarrow> byte list \<Rightarrow> int \<Rightarrow> int \<Rightarrow> int \<Rightarrow> int option" where
  "search_last_loop compare content content_len item_size target target_sz offset found_idx =
     (if item_size = 0 then None
      else if found_idx < trunc_div content_len item_size - 1 then
        (case mem_read content ((found_idx + 1) * item_size + offset) target_sz of
           None \<Rightarrow> None
         | Some k \<Rightarrow>
            (case mem_read target 0 target_sz of
               None \<Rightarrow> None
             | Some t \<Rightarrow>
                if 0 = compare k t target_sz
                then search_last_loop compare content content_len item_size target target_sz
                       offset (found_idx + 1)
                else Some found_idx))
      else Some found_idx)"
  by pat_completeness auto
termination
  by (relation "measure (\<lambda>(compare, content, content_len, item_size, target, target_sz,
        offset, found_idx). nat (trunc_div content_len item_size - 1 - found_idx))") auto

definition bp_bi_search_last ::
  "byte list \<Rightarrow> int \<Rightarrow> int \<Rightarrow> byte list \<Rightarrow> int \<Rightarrow> int \<Rightarrow> bp_compare_f option \<Rightarrow>
   (int \<times> int) option" where
  "bp_bi_search_last content content_len item_size target target_sz offset compare =
     do {
       (found, found_idx) \<leftarrow> bp_bi_search_one content content_len item_size target
          target_sz offset (Some (the_compare compare));
       if 0 = found then Some (0, found_idx)
       else do {
         idx \<leftarrow> search_last_loop (the_compare compare) content content_len item_size target
            target_sz offset found_idx;
         Some (1, idx)
       }
     }"

section \<open>Nodes and the heap\<close>

text \<open>
  A node pointer is a 64-bit address, \<open>0\<close> is \<^verbatim>\<open>NULL\<close>, and \<^verbatim>\<open>sizeof(bp_node_t *)\<close> is 8. A
  pointer stored in a content buffer occupies 8 bytes, least significant byte first.
\<close>

type_synonym addr = "64 word"

abbreviation NULL :: addr where
  "NULL \<equiv> 0"

definition ptr_size :: int where
  "ptr_size = 8"

definition ptr_bytes :: "addr \<Rightarrow> byte list" where
  "ptr_bytes p = map (\<lambda>i. ucast (drop_bit (8 * i) p)) [0..<8]"

definition bytes_ptr :: "byte list \<Rightarrow> addr" where
  "bytes_ptr bs = word_rcat (rev bs)"

datatype bp_node_type = BP_NODE_TYPE_INNER | BP_NODE_TYPE_DATA

text \<open>
  The two function pointers of \<^verbatim>\<open>bp_node_common_t\<close> range over the functions of the file
  that have the pointer's type; \<open>None\<close> is a null function pointer.
\<close>

datatype bp_node_insert_f = Fn_bp_data_node_insert_data | Fn_bp_inner_node_insert_data

datatype bp_node_get_max_key_f = Fn_bp_data_node_max_key | Fn_bp_inner_node_max_key

record bp_node_common =
  node_type :: bp_node_type
  insert_fn :: "bp_node_insert_f option"
  max_key_fn :: "bp_node_get_max_key_f option"
  compare_fn :: "bp_compare_f option"
  max_key_num :: int
  min_key_num :: int
  key_num :: int

text \<open>
  \<^verbatim>\<open>bp_data_node_t\<close> and \<^verbatim>\<open>bp_inner_node_t\<close> start with the common header, so each is an
  extension of \<open>bp_node_common\<close>. \<open>content\<close> is the flexible array member; its length
  is the number of bytes allocated for it.
\<close>

record bp_data_node = bp_node_common +
  key_size :: int
  value_size :: int
  content_len :: int
  content :: "byte list"

record bp_inner_node = bp_node_common +
  inner_key_size :: int
  key_total :: int
  inner_content_len :: int
  inner_content :: "byte list"

datatype node = Data_node bp_data_node | Inner_node bp_inner_node

text \<open>
  The heap maps the address of every live node to the node. \<open>malloc_plan\<close> lists what
  the coming calls of \<^verbatim>\<open>malloc\<close> return, \<open>NULL\<close> for a failed allocation; when the
  list is used up \<^verbatim>\<open>malloc\<close> fails. \<^verbatim>\<open>malloc\<close> never returns the address of a live node:
  a plan that would do so gives \<open>None\<close>.
\<close>

record heap =
  nodes :: "addr \<Rightarrow> node option"
  malloc_plan :: "addr list"

definition malloc :: "heap \<Rightarrow> (addr \<times> heap) option" where
  "malloc h =
     (case malloc_plan h of
        [] \<Rightarrow> Some (NULL, h)
      | a # plan \<Rightarrow>
          (if a = NULL then Some (NULL, h\<lparr>malloc_plan := plan\<rparr>)
           else (case nodes h a of
                   None \<Rightarrow> Some (a, h\<lparr>malloc_plan := plan\<rparr>)
                 | Some n \<Rightarrow> None)))"

text \<open>The casts \<^verbatim>\<open>(bp_data_node_t *)node\<close> and \<^verbatim>\<open>(bp_inner_node_t *)node\<close>, dereferenced.\<close>

definition the_data :: "heap \<Rightarrow> addr \<Rightarrow> bp_data_node option" where
  "the_data h p = (case nodes h p of Some (Data_node d) \<Rightarrow> Some d | _ \<Rightarrow> None)"

definition the_inner :: "heap \<Rightarrow> addr \<Rightarrow> bp_inner_node option" where
  "the_inner h p = (case nodes h p of Some (Inner_node i) \<Rightarrow> Some i | _ \<Rightarrow> None)"

definition put_node :: "heap \<Rightarrow> addr \<Rightarrow> node \<Rightarrow> heap" where
  "put_node h p n = h\<lparr>nodes := (nodes h)(p \<mapsto> n)\<rparr>"

text \<open>The cast \<^verbatim>\<open>(bp_node_common_t *)node\<close>: the function pointers of either kind of node.\<close>

definition node_insert_fn :: "node \<Rightarrow> bp_node_insert_f option" where
  "node_insert_fn n = (case n of Data_node d \<Rightarrow> insert_fn d | Inner_node i \<Rightarrow> insert_fn i)"

definition node_max_key_fn :: "node \<Rightarrow> bp_node_get_max_key_f option" where
  "node_max_key_fn n = (case n of Data_node d \<Rightarrow> max_key_fn d | Inner_node i \<Rightarrow> max_key_fn i)"

definition bp_calc_inner_node_content_len :: "int \<Rightarrow> int \<Rightarrow> int" where
  "bp_calc_inner_node_content_len max_key_num' key_size' =
     max_key_num' * (key_size' + ptr_size) + ptr_size"

definition bp_calc_data_node_content_len :: "int \<Rightarrow> int \<Rightarrow> int \<Rightarrow> int" where
  "bp_calc_data_node_content_len max_kv_num key_size' value_size' =
     max_kv_num * (key_size' + value_size') + ptr_size"

section \<open>Leaf (data) nodes\<close>

text \<open>
  \<^verbatim>\<open>bp_create_data_node\<close>: the result is the returned pointer and the heap. A negative
  \<open>content_len\<close> makes the \<^verbatim>\<open>memset\<close> undefined.
\<close>

definition bp_create_data_node ::
  "heap \<Rightarrow> int \<Rightarrow> int \<Rightarrow> int \<Rightarrow> int \<Rightarrow> bp_compare_f option \<Rightarrow> (addr \<times> heap) option" where
  "bp_create_data_node h max_kv_num min_kv_num key_size' value_size' compare =
     do {
       let content_len' = bp_calc_data_node_content_len max_kv_num key_size' value_size';
       (new, h1) \<leftarrow> malloc h;
       if NULL = new then Some (NULL, h1)
       else if content_len' < 0 then None
       else Some (new, put_node h1 new (Data_node
         \<lparr>node_type = BP_NODE_TYPE_DATA,
          insert_fn = Some Fn_bp_data_node_insert_data,
          max_key_fn = Some Fn_bp_data_node_max_key,
          compare_fn = compare,
          max_key_num = max_kv_num,
          min_key_num = min_kv_num,
          key_num = 0,
          key_size = key_size',
          value_size = value_size',
          content_len = content_len',
          content = replicate (nat content_len') 0\<rparr>))
     }"

definition bp_data_node_need_split :: "bp_data_node \<Rightarrow> bool" where
  "bp_data_node_need_split data \<longleftrightarrow> key_num data \<ge> max_key_num data"

text \<open>The offset in \<open>content\<close> where the next-leaf pointer is kept.\<close>

definition bp_data_node_get_pnext_save_position :: "bp_data_node \<Rightarrow> int" where
  "bp_data_node_get_pnext_save_position data = content_len data - ptr_size"

definition bp_data_node_get_pnext :: "bp_data_node \<Rightarrow> addr option" where
  "bp_data_node_get_pnext data =
     map_option bytes_ptr
       (mem_read (content data) (bp_data_node_get_pnext_save_position data) ptr_size)"

definition bp_data_node_set_pnext :: "bp_data_node \<Rightarrow> addr \<Rightarrow> bp_data_node option" where
  "bp_data_node_set_pnext data pnext =
     map_option (\<lambda>c. data\<lparr>content := c\<rparr>)
       (mem_write (content data) (bp_data_node_get_pnext_save_position data) (ptr_bytes pnext))"

text \<open>
  \<^verbatim>\<open>bp_data_node_split\<close>: the result is the return value, \<^verbatim>\<open>*pp_new\<close> and the heap.
\<close>

definition bp_data_node_split :: "heap \<Rightarrow> addr \<Rightarrow> (int \<times> addr \<times> heap) option" where
  "bp_data_node_split h to_split =
     do {
       old \<leftarrow> the_data h to_split;
       (new_p, h1) \<leftarrow> bp_create_data_node h (max_key_num old) (min_key_num old)
          (key_size old) (value_size old) (compare_fn old);
       if NULL = new_p then Some (-1, NULL, h1)
       else do {
         new \<leftarrow> the_data h1 new_p;
         let old_data_num = key_num old;
         let old = old\<lparr>key_num := trunc_div old_data_num 2\<rparr>;
         let new = new\<lparr>key_num := old_data_num - key_num old\<rparr>;
         let offset = key_num old * (key_size old + value_size old);
         let copy_len = key_num new * (key_size new + value_size new);
         moved \<leftarrow> mem_read (content old) offset copy_len;
         c \<leftarrow> mem_write (content new) 0 moved;
         let new = new\<lparr>content := c\<rparr>;
         old_next \<leftarrow> bp_data_node_get_pnext old;
         new \<leftarrow> bp_data_node_set_pnext new old_next;
         old \<leftarrow> bp_data_node_set_pnext old new_p;
         Some (0, new_p, put_node (put_node h1 to_split (Data_node old)) new_p (Data_node new))
       }
     }"

text \<open>
  The loop of \<^verbatim>\<open>bp_data_node_insert_data\<close> that moves the items behind the insertion point
  one slot to the right; \<open>tmp\<close> and \<open>dst\<close> are offsets in \<open>content\<close>.
\<close>

partial_function (option) data_shift_loop ::
  "byte list \<Rightarrow> int \<Rightarrow> int \<Rightarrow> int \<Rightarrow> byte list option" where
  "data_shift_loop content' item_size dst tmp =
     (if tmp > dst then
        do {
          item \<leftarrow> mem_read content' (tmp - item_size) item_size;
          c \<leftarrow> mem_write content' tmp item;
          data_shift_loop c item_size dst (tmp - item_size)
        }
      else Some content')"

declare data_shift_loop.simps [code]

text \<open>
  \<^verbatim>\<open>bp_data_node_insert_data\<close>: \<open>key\<close> and \<open>position\<close> are the caller's buffers. The result
  is the return value, \<^verbatim>\<open>*pp_new\<close>, the caller's key buffer (the function writes to it at
  line 477) and the heap.

  Line 477 tests \<^verbatim>\<open>0 == memcpy(key, min_key_of_new, data->key_size)\<close>. \<^verbatim>\<open>memcpy\<close> copies the
  new node's first key over the caller's key and returns its first argument, the pointer
  \<open>key\<close>, which is not null (line 469 has read through it): the test is false and
  \<open>data\<close> stays the old node.
\<close>

definition bp_data_node_insert_data ::
  "heap \<Rightarrow> addr \<Rightarrow> byte list \<Rightarrow> byte list \<Rightarrow> (int \<times> addr \<times> byte list \<times> heap) option" where
  "bp_data_node_insert_data h node key position =
     do {
       data \<leftarrow> the_data h node;
       (split_res, pp_new, h1) \<leftarrow>
         (if bp_data_node_need_split data then bp_data_node_split h node
          else Some (0, NULL, h));
       if bp_data_node_need_split data \<and> -1 = split_res then Some (-1, pp_new, key, h1)
       else do {
         data \<leftarrow> the_data h1 node;
         (data_p, key) \<leftarrow>
           (if pp_new \<noteq> NULL then
              do {
                max_key_of_data \<leftarrow> mem_read (content data)
                   ((key_num data - 1) * (key_size data + value_size data)) (key_size data);
                k \<leftarrow> mem_read key 0 (key_size data);
                let cmp_res = memcmp k max_key_of_data;
                if 0 < cmp_res then Some (pp_new, key)
                else if 0 = cmp_res then
                  do {
                    new \<leftarrow> the_data h1 pp_new;
                    min_key_of_new \<leftarrow> mem_read (content new) 0 (key_size data);
                    key \<leftarrow> mem_write key 0 min_key_of_new;
                    let memcpy_result_is_null = False;
                    if memcpy_result_is_null then Some (pp_new, key) else Some (node, key)
                  }
                else Some (node, key)
              }
            else Some (node, key));
         data \<leftarrow> the_data h1 data_p;
         let item_size = key_size data + value_size data;
         let valid_data_len = key_num data * item_size;
         (found, found_idx) \<leftarrow> bp_bi_search_last (content data) valid_data_len item_size
            key (key_size data) 0 (compare_fn data);
         let dst = found_idx * item_size;
         let dst = (if found \<noteq> 0 then dst + item_size else dst);
         c \<leftarrow> (if dst < valid_data_len
               then data_shift_loop (content data) item_size dst (valid_data_len + item_size)
               else Some (content data));
         k \<leftarrow> mem_read key 0 (key_size data);
         c \<leftarrow> mem_write c dst k;
         v \<leftarrow> mem_read position 0 (value_size data);
         c \<leftarrow> mem_write c (dst + key_size data) v;
         let data = data\<lparr>content := c, key_num := key_num data + 1\<rparr>;
         Some (0, pp_new, key, put_node h1 data_p (Data_node data))
       }
     }"

text \<open>
  \<^verbatim>\<open>bp_data_node_max_key\<close>: \<open>key_buf\<close> is the memory the caller's pointer designates. The
  result is the return value and that memory afterwards.
\<close>

definition bp_data_node_max_key ::
  "heap \<Rightarrow> addr \<Rightarrow> byte list \<Rightarrow> int \<Rightarrow> (int \<times> byte list) option" where
  "bp_data_node_max_key h node key_buf key_buf_len =
     do {
       data \<leftarrow> the_data h node;
       if key_num data \<le> 0 then Some (-1, key_buf)
       else do {
         let cp_len = (if key_buf_len < key_size data then key_buf_len else key_size data);
         last_key \<leftarrow> mem_read (content data)
            ((key_num data - 1) * (key_size data + value_size data)) cp_len;
         buf \<leftarrow> mem_write key_buf 0 last_key;
         Some (cp_len, buf)
       }
     }"

section \<open>Inner nodes\<close>

text \<open>
  \<^verbatim>\<open>bp_create_inner_node\<close>. Line 764 stores \<^verbatim>\<open>NULL\<close> in \<^verbatim>\<open>common.max_key\<close>.
\<close>

definition bp_create_inner_node ::
  "heap \<Rightarrow> int \<Rightarrow> int \<Rightarrow> bp_compare_f option \<Rightarrow> (addr \<times> heap) option" where
  "bp_create_inner_node h max_key_num' key_size' compare =
     do {
       let content_len' = bp_calc_inner_node_content_len max_key_num' key_size';
       (new, h1) \<leftarrow> malloc h;
       if NULL = new then Some (NULL, h1)
       else if content_len' < 0 then None
       else Some (new, put_node h1 new (Inner_node
         \<lparr>node_type = BP_NODE_TYPE_INNER,
          insert_fn = Some Fn_bp_inner_node_insert_data,
          max_key_fn = None,
          compare_fn = compare,
          max_key_num = max_key_num',
          min_key_num = trunc_div max_key_num' 2,
          key_num = 0,
          inner_key_size = key_size',
          key_total = 0,
          inner_content_len = content_len',
          inner_content = replicate (nat content_len') 0\<rparr>))
     }"

text \<open>\<^verbatim>\<open>bp_inner_node_set_first_ptr\<close>, and the \<^verbatim>\<open>memcpy\<close> of the test that does the same.\<close>

definition bp_inner_node_set_first_ptr :: "heap \<Rightarrow> addr \<Rightarrow> addr \<Rightarrow> heap option" where
  "bp_inner_node_set_first_ptr h inner_p first_data =
     do {
       inner \<leftarrow> the_inner h inner_p;
       c \<leftarrow> mem_write (inner_content inner) 0 (ptr_bytes first_data);
       Some (put_node h inner_p (Inner_node (inner\<lparr>inner_content := c\<rparr>)))
     }"

definition bp_inner_node_get_insert_position :: "bp_inner_node \<Rightarrow> int \<Rightarrow> addr option" where
  "bp_inner_node_get_insert_position inner found_idx =
     (if found_idx < key_num inner then
        map_option bytes_ptr
          (mem_read (inner_content inner) (found_idx * (ptr_size + inner_key_size inner)) ptr_size)
      else
        map_option bytes_ptr
          (mem_read (inner_content inner)
             ((key_num inner - 1) * (ptr_size + inner_key_size inner)) ptr_size))"

definition bp_inner_node_split :: "heap \<Rightarrow> addr \<Rightarrow> (int \<times> addr \<times> heap) option" where
  "bp_inner_node_split h to_split =
     do {
       old \<leftarrow> the_inner h to_split;
       (new_p, h1) \<leftarrow> bp_create_inner_node h (max_key_num old) (inner_key_size old)
          (compare_fn old);
       if NULL = new_p then Some (-1, NULL, h1)
       else do {
         new \<leftarrow> the_inner h1 new_p;
         let old_data_num = key_num old;
         let old = old\<lparr>key_num := trunc_div old_data_num 2\<rparr>;
         let new = new\<lparr>key_num := old_data_num - key_num old\<rparr>;
         let offset = key_num old * (ptr_size + inner_key_size old);
         let copy_len = key_num new * (ptr_size + inner_key_size new);
         moved \<leftarrow> mem_read (inner_content old) offset copy_len;
         c \<leftarrow> mem_write (inner_content new) 0 moved;
         let new = new\<lparr>inner_content := c\<rparr>;
         Some (0, new_p, put_node (put_node h1 to_split (Inner_node old)) new_p (Inner_node new))
       }
     }"

definition bp_inner_node_max_key ::
  "heap \<Rightarrow> addr \<Rightarrow> byte list \<Rightarrow> int \<Rightarrow> (int \<times> byte list) option" where
  "bp_inner_node_max_key h node key_buf key_buf_len =
     do {
       inner \<leftarrow> the_inner h node;
       if key_num inner \<le> 0 then Some (-1, key_buf)
       else do {
         let cp_len = (if key_buf_len < inner_key_size inner then key_buf_len
                       else inner_key_size inner);
         last_key \<leftarrow> mem_read (inner_content inner)
            ((key_num inner - 1) * (ptr_size + inner_key_size inner) + ptr_size) cp_len;
         buf \<leftarrow> mem_write key_buf 0 last_key;
         Some (cp_len, buf)
       }
     }"

text \<open>
  The call \<^verbatim>\<open>n->max_key((bp_node_t *)n, key_buf, key_buf_len)\<close> through the function pointer
  of node \<open>n\<close>.
\<close>

definition call_max_key ::
  "heap \<Rightarrow> addr \<Rightarrow> byte list \<Rightarrow> int \<Rightarrow> (int \<times> byte list) option" where
  "call_max_key h n key_buf key_buf_len =
     do {
       nd \<leftarrow> nodes h n;
       f \<leftarrow> node_max_key_fn nd;
       (case f of
          Fn_bp_data_node_max_key \<Rightarrow> bp_data_node_max_key h n key_buf key_buf_len
        | Fn_bp_inner_node_max_key \<Rightarrow> bp_inner_node_max_key h n key_buf key_buf_len)
     }"

text \<open>
  A call of \<open>max_key\<close> whose \<open>key_buf\<close> points to offset \<open>off\<close> of the buffer \<open>c\<close>: the
  memory the pointer designates is the rest of \<open>c\<close> from \<open>off\<close> on. The result is \<open>c\<close>
  after the call (the callers drop the return value).
\<close>

definition call_max_key_at ::
  "heap \<Rightarrow> addr \<Rightarrow> byte list \<Rightarrow> int \<Rightarrow> int \<Rightarrow> byte list option" where
  "call_max_key_at h n c off key_buf_len =
     (if 0 \<le> off \<and> off \<le> int (length c) then
        do {
          (r, buf) \<leftarrow> call_max_key h n (drop (nat off) c) key_buf_len;
          Some (take (nat off) c @ buf)
        }
      else None)"

text \<open>
  The loop of \<^verbatim>\<open>bp_inner_node_add_split_child\<close> that moves the entries behind the child one
  slot to the right.
\<close>

partial_function (option) inner_shift_loop ::
  "byte list \<Rightarrow> int \<Rightarrow> int \<Rightarrow> int \<Rightarrow> byte list option" where
  "inner_shift_loop content' item_size child_position tmp =
     (if tmp > child_position then
        do {
          item \<leftarrow> mem_read content' tmp item_size;
          c \<leftarrow> mem_write content' (tmp + item_size) item;
          inner_shift_loop c item_size child_position (tmp - item_size)
        }
      else Some content')"

declare inner_shift_loop.simps [code]

text \<open>
  \<^verbatim>\<open>bp_inner_node_add_split_child\<close>: the result is the return value, \<^verbatim>\<open>*split_inner\<close> and
  the heap. \<open>valid_data_len\<close> is computed from \<open>inner\<close> also when the child's entry is in
  the node split off, as in the source. The buffer of the node that holds the child's
  entry is worked on in a local copy \<open>c\<close> and stored back at the end; the two \<open>max_key\<close>
  calls read the child and the new child from the heap, which are other nodes than the
  one that holds their entries.
\<close>

definition bp_inner_node_add_split_child ::
  "heap \<Rightarrow> addr \<Rightarrow> addr \<Rightarrow> addr \<Rightarrow> int \<Rightarrow> (int \<times> addr \<times> heap) option" where
  "bp_inner_node_add_split_child h inner_p child split_child child_idx =
     do {
       inner \<leftarrow> the_inner h inner_p;
       (split_res, split_inner, h1) \<leftarrow>
         (if key_num inner = max_key_num inner then bp_inner_node_split h inner_p
          else Some (0, NULL, h));
       if key_num inner = max_key_num inner \<and> -1 = split_res
       then Some (-1, split_inner, h1)
       else do {
         inner \<leftarrow> the_inner h1 inner_p;
         let (inner_contains_child, child_idx) =
           (if split_inner \<noteq> NULL then
              (if child_idx < key_num inner then (inner_p, child_idx)
               else (split_inner, child_idx - key_num inner))
            else (inner_p, child_idx));
         let item_size = ptr_size + inner_key_size inner;
         let valid_data_len = key_num inner * item_size;
         icc \<leftarrow> the_inner h1 inner_contains_child;
         let child_position = child_idx * item_size;
         c \<leftarrow> call_max_key_at h1 child (inner_content icc) (child_position + ptr_size)
                (inner_key_size inner);
         c \<leftarrow> inner_shift_loop c item_size child_position (valid_data_len - item_size);
         let tmp = child_position + item_size;
         c \<leftarrow> mem_write c tmp (ptr_bytes split_child);
         c \<leftarrow> call_max_key_at h1 split_child c (tmp + ptr_size) (inner_key_size icc);
         let icc = icc\<lparr>inner_content := c, key_num := key_num icc + 1\<rparr>;
         Some (0, split_inner, put_node h1 inner_contains_child (Inner_node icc))
       }
     }"

text \<open>
  \<^verbatim>\<open>bp_inner_node_insert_data\<close>, which calls itself through the \<open>insert\<close> pointer of a child
  that is an inner node. The result is the return value, \<^verbatim>\<open>*pp_new\<close>, the caller's key
  buffer and the heap. The return value of \<^verbatim>\<open>bp_inner_node_add_split_child\<close> is dropped, as
  at line 712.
\<close>

partial_function (option) bp_inner_node_insert_data ::
  "heap \<Rightarrow> addr \<Rightarrow> byte list \<Rightarrow> byte list \<Rightarrow> (int \<times> addr \<times> byte list \<times> heap) option" where
  "bp_inner_node_insert_data h node key position =
     do {
       inner \<leftarrow> the_inner h node;
       h1 \<leftarrow>
         (if 0 = key_num inner then
            do {
              k \<leftarrow> mem_read key 0 (inner_key_size inner);
              c \<leftarrow> mem_write (inner_content inner) ptr_size k;
              Some (put_node h node (Inner_node (inner\<lparr>inner_content := c, key_num := 1\<rparr>)))
            }
          else Some h);
       inner \<leftarrow> the_inner h1 node;
       let item_size = ptr_size + inner_key_size inner;
       let valid_data_len = key_num inner * item_size;
       (found, found_idx) \<leftarrow> bp_bi_search_last (inner_content inner) valid_data_len item_size
          key (inner_key_size inner) ptr_size (compare_fn inner);
       h2 \<leftarrow>
         (if found_idx = key_num inner then
            do {
              k \<leftarrow> mem_read key 0 (inner_key_size inner);
              c \<leftarrow> mem_write (inner_content inner) ((found_idx - 1) * item_size + ptr_size) k;
              Some (put_node h1 node (Inner_node (inner\<lparr>inner_content := c\<rparr>)))
            }
          else Some h1);
       inner \<leftarrow> the_inner h2 node;
       child \<leftarrow> bp_inner_node_get_insert_position inner found_idx;
       child_node \<leftarrow> nodes h2 child;
       insert_f \<leftarrow> node_insert_fn child_node;
       (res, split_child, key, h3) \<leftarrow>
         (case insert_f of
            Fn_bp_data_node_insert_data \<Rightarrow> bp_data_node_insert_data h2 child key position
          | Fn_bp_inner_node_insert_data \<Rightarrow> bp_inner_node_insert_data h2 child key position);
       if -1 = res then Some (-1, NULL, key, h3)
       else do {
         (pp_new, h4) \<leftarrow>
           (if split_child \<noteq> NULL then
              do {
                (r, split_inner, h') \<leftarrow>
                   bp_inner_node_add_split_child h3 node child split_child found_idx;
                Some (split_inner, h')
              }
            else Some (NULL, h3));
         inner \<leftarrow> the_inner h4 node;
         Some (0, pp_new, key,
               put_node h4 node (Inner_node (inner\<lparr>key_total := key_total inner + 1\<rparr>)))
       }
     }"

declare bp_inner_node_insert_data.simps [code]

section \<open>Notions used to state the properties\<close>

text \<open>
  The key of item \<open>i\<close> of a packed array: \<open>sz\<close> bytes at \<open>offset\<close> within the item. An
  array of \<open>n\<close> items is packed in \<open>buf\<close> when the items have a positive size, the key
  field lies within an item and the \<open>n\<close> items lie within the buffer.
\<close>

definition item_key :: "byte list \<Rightarrow> int \<Rightarrow> int \<Rightarrow> int \<Rightarrow> nat \<Rightarrow> byte list" where
  "item_key buf item_size offset sz i =
     take (nat sz) (drop (nat (int i * item_size + offset)) buf)"

definition item_keys :: "byte list \<Rightarrow> int \<Rightarrow> int \<Rightarrow> int \<Rightarrow> nat \<Rightarrow> byte list list" where
  "item_keys buf item_size offset sz n = map (item_key buf item_size offset sz) [0..<n]"

definition packed_array :: "byte list \<Rightarrow> int \<Rightarrow> int \<Rightarrow> int \<Rightarrow> nat \<Rightarrow> bool" where
  "packed_array buf item_size offset sz n \<longleftrightarrow>
     0 < item_size \<and> 0 \<le> offset \<and> 0 \<le> sz \<and> offset + sz \<le> item_size \<and>
     int n * item_size \<le> int (length buf)"

text \<open>
  The comparator contract: on keys of \<open>sz\<close> bytes, \<open>cmp a b < 0\<close> exactly when
  \<open>cmp b a > 0\<close>, and \<open>\<le>\<close> is transitive. Keys are sorted when every earlier key compares
  \<open>\<le>\<close> every later one.
\<close>

definition valid_compare :: "bp_compare_f \<Rightarrow> int \<Rightarrow> bool" where
  "valid_compare cmp sz \<longleftrightarrow>
     (\<forall>a b. length a = nat sz \<and> length b = nat sz \<longrightarrow> (cmp a b sz < 0) = (0 < cmp b a sz)) \<and>
     (\<forall>a b c. length a = nat sz \<and> length b = nat sz \<and> length c = nat sz \<longrightarrow>
        cmp a b sz \<le> 0 \<longrightarrow> cmp b c sz \<le> 0 \<longrightarrow> cmp a c sz \<le> 0)"

definition keys_sorted :: "bp_compare_f \<Rightarrow> int \<Rightarrow> byte list list \<Rightarrow> bool" where
  "keys_sorted cmp sz ks \<longleftrightarrow> sorted_wrt (\<lambda>a b. cmp a b sz \<le> 0) ks"

text \<open>
  The index of the first key greater than the target \<open>t\<close>, or the number of keys when
  there is none.
\<close>

definition first_greater :: "bp_compare_f \<Rightarrow> int \<Rightarrow> byte list \<Rightarrow> byte list list \<Rightarrow> nat" where
  "first_greater cmp sz t ks = length (takeWhile (\<lambda>k. \<not> cmp t k sz < 0) ks)"

text \<open>
  What a binary search may answer, given the sign \<open>s i\<close> of comparing the target with
  key \<open>i\<close>: found at a matching index, or not found at the index that separates the
  smaller keys from the greater ones.
\<close>

definition search_post :: "(nat \<Rightarrow> int) \<Rightarrow> nat \<Rightarrow> int \<Rightarrow> nat \<Rightarrow> bool" where
  "search_post s n r idx \<longleftrightarrow>
     (r = 1 \<and> idx < n \<and> s idx = 0) \<or>
     (r = 0 \<and> idx \<le> n \<and> (\<forall>i<idx. 0 < s i) \<and> (\<forall>i. idx \<le> i \<and> i < n \<longrightarrow> s i < 0))"

text \<open>
  A leaf as \<^verbatim>\<open>bp_create_data_node\<close> lays it out and the inserts keep it: sizes and count
  not negative, the count within the capacity, and the buffer of the computed length.
\<close>

definition data_node_wf :: "bp_data_node \<Rightarrow> bool" where
  "data_node_wf d \<longleftrightarrow>
     0 \<le> key_size d \<and> 0 \<le> value_size d \<and> 0 \<le> key_num d \<and> key_num d \<le> max_key_num d \<and>
     content_len d = bp_calc_data_node_content_len (max_key_num d) (key_size d) (value_size d) \<and>
     int (length (content d)) = content_len d"

section \<open>The scenarios of the test suite\<close>

text \<open>The bytes of a C string literal, and a heap without nodes.\<close>

definition bytes_of :: "string \<Rightarrow> byte list" where
  "bytes_of s = map of_char s"

definition empty_heap :: "addr list \<Rightarrow> heap" where
  "empty_heap plan = \<lparr>nodes = (\<lambda>a. None), malloc_plan = plan\<rparr>"

text \<open>
  A sequence of calls of \<^verbatim>\<open>bp_data_node_insert_data\<close>, or of \<^verbatim>\<open>bp_inner_node_insert_data\<close>,
  on one node, as in \<^verbatim>\<open>TEST(LeafNode, Insert)\<close> and \<^verbatim>\<open>TEST(InnerNode, Insert)\<close>: each call
  gets its key and value in fresh buffers. The result lists the return value and
  \<^verbatim>\<open>*pp_new\<close> of every call.
\<close>

fun data_insert_seq ::
  "heap \<Rightarrow> addr \<Rightarrow> (string \<times> string) list \<Rightarrow> ((int \<times> addr) list \<times> heap) option" where
  "data_insert_seq h node [] = Some ([], h)"
| "data_insert_seq h node ((k, p) # kps) =
     do {
       (r, split, key', h1) \<leftarrow> bp_data_node_insert_data h node (bytes_of k) (bytes_of p);
       (rs, h2) \<leftarrow> data_insert_seq h1 node kps;
       Some ((r, split) # rs, h2)
     }"

fun inner_insert_seq ::
  "heap \<Rightarrow> addr \<Rightarrow> (string \<times> string) list \<Rightarrow> ((int \<times> addr) list \<times> heap) option" where
  "inner_insert_seq h node [] = Some ([], h)"
| "inner_insert_seq h node ((k, p) # kps) =
     do {
       (r, split, key', h1) \<leftarrow> bp_inner_node_insert_data h node (bytes_of k) (bytes_of p);
       (rs, h2) \<leftarrow> inner_insert_seq h1 node kps;
       Some ((r, split) # rs, h2)
     }"

text \<open>
  The set-up of \<^verbatim>\<open>TEST(InnerNode, Insert)\<close>: an inner node, a leaf, and the leaf's address
  copied to the start of the inner node's buffer.
\<close>

definition inner_test_tree ::
  "addr list \<Rightarrow> int \<Rightarrow> int \<Rightarrow> int \<Rightarrow> int \<Rightarrow> (addr \<times> addr \<times> heap) option" where
  "inner_test_tree plan inner_max leaf_max ks vs =
     do {
       (head, h) \<leftarrow> bp_create_inner_node (empty_heap plan) inner_max ks None;
       (data, h) \<leftarrow> bp_create_data_node h leaf_max 2 ks vs None;
       h \<leftarrow> bp_inner_node_set_first_ptr h head data;
       Some (head, data, h)
     }"

text \<open>The keys of a leaf, and the child pointers and separator keys of an inner node.\<close>

definition data_keys :: "heap \<Rightarrow> addr \<Rightarrow> byte list list option" where
  "data_keys h p =
     map_option (\<lambda>d. item_keys (content d) (key_size d + value_size d) 0 (key_size d)
                       (nat (key_num d)))
       (the_data h p)"

definition data_items :: "heap \<Rightarrow> addr \<Rightarrow> byte list option" where
  "data_items h p =
     map_option (\<lambda>d. take (nat (key_num d * (key_size d + value_size d))) (content d))
       (the_data h p)"

definition inner_children :: "heap \<Rightarrow> addr \<Rightarrow> addr list option" where
  "inner_children h p =
     map_option (\<lambda>i. map bytes_ptr
         (item_keys (inner_content i) (ptr_size + inner_key_size i) 0 ptr_size (nat (key_num i))))
       (the_inner h p)"

definition inner_keys :: "heap \<Rightarrow> addr \<Rightarrow> byte list list option" where
  "inner_keys h p =
     map_option (\<lambda>i. item_keys (inner_content i) (ptr_size + inner_key_size i) ptr_size
                       (inner_key_size i) (nat (key_num i)))
       (the_inner h p)"

text \<open>
  The same for an inner node as \<^verbatim>\<open>bp_create_inner_node\<close> lays it out.
\<close>

definition inner_node_wf :: "bp_inner_node \<Rightarrow> bool" where
  "inner_node_wf i \<longleftrightarrow>
     0 \<le> inner_key_size i \<and> 0 \<le> key_num i \<and> key_num i \<le> max_key_num i \<and>
     inner_content_len i =
       bp_calc_inner_node_content_len (max_key_num i) (inner_key_size i) \<and>
     int (length (inner_content i)) = inner_content_len i"

text \<open>
  A full leaf of capacity 2 holding \<^verbatim>\<open>('1','a')\<close> and \<^verbatim>\<open>('2','b')\<close>, whose next-leaf pointer
  is \<^verbatim>\<open>0x5000\<close>; an inner node of capacity 4 whose one entry is that leaf with separator
  \<^verbatim>\<open>"2"\<close>; and a heap that holds the two.
\<close>

definition full_leaf :: bp_data_node where
  "full_leaf =
     \<lparr>node_type = BP_NODE_TYPE_DATA,
      insert_fn = Some Fn_bp_data_node_insert_data,
      max_key_fn = Some Fn_bp_data_node_max_key,
      compare_fn = None,
      max_key_num = 2, min_key_num = 1, key_num = 2,
      key_size = 1, value_size = 1, content_len = 12,
      content = bytes_of ''1a2b'' @ ptr_bytes 0x5000\<rparr>"

definition one_key_inner :: bp_inner_node where
  "one_key_inner =
     \<lparr>node_type = BP_NODE_TYPE_INNER,
      insert_fn = Some Fn_bp_inner_node_insert_data,
      max_key_fn = None,
      compare_fn = None,
      max_key_num = 4, min_key_num = 2, key_num = 1,
      inner_key_size = 1, key_total = 2, inner_content_len = 44,
      inner_content = ptr_bytes 0x1000 @ bytes_of ''2'' @ replicate 35 0\<rparr>"

definition full_leaf_heap :: "addr list \<Rightarrow> heap" where
  "full_leaf_heap plan =
     \<lparr>nodes = (\<lambda>a. None)(0x1000 \<mapsto> Data_node full_leaf, 0x3000 \<mapsto> Inner_node one_key_inner),
      malloc_plan = plan\<rparr>"

section \<open>Properties of the binary searches\<close>

subsection \<open>Arithmetic and reads within a packed array\<close>

lemma trunc_div_nat2: "trunc_div (int m) 2 = int (m div 2)"
  by (simp add: trunc_div_def zdiv_int)

lemma trunc_div_mult: "0 < isz \<Longrightarrow> trunc_div (int p * isz) isz = int p"
proof -
  assume "0 < isz"
  then have "0 \<le> int p * isz" by simp
  then have "\<not> int p * isz < 0" by simp
  then show ?thesis using \<open>0 < isz\<close> by (simp add: trunc_div_def abs_mult)
qed

lemma c_div_mult: "0 < isz \<Longrightarrow> c_div (int p * isz) isz = Some (int p)"
  by (simp add: c_div_def trunc_div_mult)

lemma mem_read_item:
  assumes "0 < isz" "0 \<le> off" "0 \<le> tsz" "off + tsz \<le> isz" "int n * isz \<le> int (length buf)" "i < n"
  shows "mem_read buf (int i * isz + off) tsz = Some (item_key buf isz off tsz i)"
proof -
  have "int (Suc i) * isz \<le> int n * isz"
    using assms(1,6) by (intro mult_right_mono) auto
  then have "int i * isz + isz \<le> int (length buf)"
    using assms(5) by (simp add: algebra_simps)
  moreover have "0 \<le> int i * isz" using assms(1) by simp
  ultimately show ?thesis
    using assms by (simp add: mem_read_def item_key_def)
qed

lemma mem_read_target: "0 \<le> tsz \<Longrightarrow> tsz \<le> int (length target) \<Longrightarrow>
   mem_read target 0 tsz = Some (take (nat tsz) target)"
  by (simp add: mem_read_def)

lemma search_one_loop_correct:
  fixes s :: "nat \<Rightarrow> int"
  assumes isz: "0 < isz" and off: "0 \<le> off" and tsz: "0 \<le> tsz" "tsz \<le> int (length target)"
    and fit: "off + tsz \<le> isz" and len: "int n * isz \<le> int (length buf)"
    and up: "\<And>i j. i \<le> j \<Longrightarrow> j < n \<Longrightarrow> 0 < s j \<Longrightarrow> 0 < s i"
    and down: "\<And>i j. i \<le> j \<Longrightarrow> j < n \<Longrightarrow> s i < 0 \<Longrightarrow> s j < 0"
    and s_def: "\<And>i. i < n \<Longrightarrow> s i = cmp (take (nat tsz) target) (item_key buf isz off tsz i) tsz"
  shows "lo + m \<le> n \<Longrightarrow> (\<forall>i<lo. 0 < s i) \<Longrightarrow> (\<forall>i. lo + m \<le> i \<and> i < n \<longrightarrow> s i < 0) \<Longrightarrow>
     (m = 0 \<longrightarrow> (\<exists>c. cr = Some c \<and> (c < 0 \<longrightarrow> mid = Some (int lo * isz)))) \<Longrightarrow>
     \<exists>r idx. search_one_loop cmp buf isz target tsz off (int m) (int lo * isz)
        (int (lo + m) * isz - isz) mid cr = Some (r, int idx) \<and> search_post s n r idx"
proof (induction m arbitrary: lo mid cr rule: less_induct)
  case (less m)
  show ?case
  proof (cases "m = 0")
    case True
    then obtain c where c: "cr = Some c" "c < 0 \<longrightarrow> mid = Some (int lo * isz)"
      using less.prems(4) by blast
    have nle: "\<not> int lo * isz \<le> int lo * isz - isz" using isz by simp
    have "search_one_loop cmp buf isz target tsz off (int m) (int lo * isz)
        (int (lo + m) * isz - isz) mid cr = Some (0, int lo)"
      using True c nle isz
      by (subst search_one_loop.simps) (auto simp: c_div_mult)
    moreover have "search_post s n 0 lo"
      using less.prems(1-3) True by (simp add: search_post_def)
    ultimately show ?thesis by blast
  next
    case False
    define h where "h = (if m div 2 = 0 then 1 else m div 2)"
    have h: "1 \<le> h" "h \<le> m" using False by (auto simp: h_def)
    define p where "p = lo + h - 1"
    have p: "lo \<le> p" "p < lo + m" "p < n" "p + 1 = lo + h"
      using h less.prems(1) by (auto simp: p_def)
    have half: "(if trunc_div (int m) 2 = 0 then 1 else trunc_div (int m) 2) = int h"
      by (simp add: trunc_div_nat2 h_def)
    have midp: "int lo * isz + (int h - 1) * isz = int p * isz"
      using h by (simp add: p_def algebra_simps)
    have le: "int lo * isz \<le> int (lo + m) * isz - isz"
    proof -
      have "int (Suc lo) * isz \<le> int (lo + m) * isz"
        using False isz by (intro mult_right_mono) auto
      then show ?thesis by (simp add: algebra_simps)
    qed
    have rd: "mem_read buf (int p * isz + off) tsz = Some (item_key buf isz off tsz p)"
      using mem_read_item[OF isz off tsz(1) fit len p(3)] .
    have sp: "cmp (take (nat tsz) target) (item_key buf isz off tsz p) tsz = s p"
      using s_def[OF p(3)] by simp
    have unfold: "search_one_loop cmp buf isz target tsz off (int m) (int lo * isz)
        (int (lo + m) * isz - isz) mid cr =
      (if 0 = s p then Some (1, int p)
       else if 0 < s p then
         search_one_loop cmp buf isz target tsz off (int m - int h) (int p * isz + isz)
           (int (lo + m) * isz - isz) (Some (int p * isz)) (Some (s p))
       else
         search_one_loop cmp buf isz target tsz off (int h - 1) (int lo * isz)
           (int p * isz - isz) (Some (int p * isz)) (Some (s p)))"
      apply (subst search_one_loop.simps)
      apply (simp only: le if_True Let_def half midp mem_read_target[OF tsz] rd sp
          bind.bind_lunit c_div_mult[OF isz])
      done
    consider (eq) "s p = 0" | (gt) "0 < s p" | (lt) "s p < 0" by linarith
    then show ?thesis
    proof cases
      case eq
      then show ?thesis using unfold p by (auto simp: search_post_def)
    next
      case gt
      have a1: "lo + h + (m - h) \<le> n" using h less.prems(1) by simp
      have a2: "\<forall>i<lo + h. 0 < s i"
      proof (intro allI impI)
        fix i assume "i < lo + h"
        then have "i \<le> p" using p by simp
        then show "0 < s i" using up[OF _ p(3) gt] by blast
      qed
      have a3: "\<forall>i. lo + h + (m - h) \<le> i \<and> i < n \<longrightarrow> s i < 0"
        using less.prems(3) h by simp
      have a4: "m - h = 0 \<longrightarrow> (\<exists>c. Some (s p) = Some c \<and> (c < 0 \<longrightarrow> Some (int p * isz) = Some (int (lo + h) * isz)))"
        using gt by simp
      have "m - h < m" using h by simp
      from less.IH[OF this a1 a2 a3 a4]
      obtain r idx where
        "search_one_loop cmp buf isz target tsz off (int (m - h)) (int (lo + h) * isz)
          (int (lo + h + (m - h)) * isz - isz) (Some (int p * isz)) (Some (s p)) = Some (r, int idx)"
        "search_post s n r idx" by blast
      moreover have "int (m - h) = int m - int h" using h by simp
      moreover have "int (lo + h) * isz = int p * isz + isz"
        using p(4)[symmetric] by (simp add: algebra_simps)
      moreover have "lo + h + (m - h) = lo + m" using h by simp
      ultimately show ?thesis using unfold gt by auto
    next
      case lt
      have a1: "lo + (h - 1) \<le> n" using p by (simp add: p_def)
      have a3: "\<forall>i. lo + (h - 1) \<le> i \<and> i < n \<longrightarrow> s i < 0"
      proof (intro allI impI)
        fix i assume "lo + (h - 1) \<le> i \<and> i < n"
        then have "p \<le> i" "i < n" using h by (auto simp: p_def)
        then show "s i < 0" using down[OF _ _ lt] by blast
      qed
      have a4: "h - 1 = 0 \<longrightarrow> (\<exists>c. Some (s p) = Some c \<and> (c < 0 \<longrightarrow> Some (int p * isz) = Some (int lo * isz)))"
        using lt h by (auto simp: p_def)
      have "h - 1 < m" using h by simp
      from less.IH[OF this a1 less.prems(2) a3 a4]
      obtain r idx where
        "search_one_loop cmp buf isz target tsz off (int (h - 1)) (int lo * isz)
          (int (lo + (h - 1)) * isz - isz) (Some (int p * isz)) (Some (s p)) = Some (r, int idx)"
        "search_post s n r idx" by blast
      moreover have "int (h - 1) = int h - 1" using h by simp
      moreover have "lo + (h - 1) = p" using h by (simp add: p_def)
      ultimately show ?thesis using unfold lt by auto
    qed
  qed
qed

lemma memcmp_antisym: "length a = length b \<Longrightarrow> (memcmp a b < 0) = (0 < memcmp b a)"
  by (induction a b rule: list_induct2) auto

lemma memcmp_trans:
  "length a = length b \<Longrightarrow> length b = length c \<Longrightarrow> memcmp a b \<le> 0 \<Longrightarrow> memcmp b c \<le> 0 \<Longrightarrow> memcmp a c \<le> 0"
proof (induction a b c rule: list_induct3)
  case Nil
  then show ?case by simp
next
  case (Cons x xs y ys z zs)
  then show ?case
    by (auto split: if_splits simp: word_uint_eq_iff)
qed

lemma valid_compare_bp_compare: "valid_compare bp_compare sz"
  unfolding valid_compare_def bp_compare_def
  using memcmp_antisym memcmp_trans by (metis (no_types, lifting))

lemma length_item_key:
  assumes "packed_array buf isz off sz n" "i < n"
  shows "length (item_key buf isz off sz i) = nat sz"
proof -
  have "int (Suc i) * isz \<le> int n * isz"
    using assms by (intro mult_right_mono) (auto simp: packed_array_def)
  then have "int i * isz + isz \<le> int (length buf)"
    using assms by (simp add: algebra_simps packed_array_def)
  moreover have "0 \<le> int i * isz" using assms by (simp add: packed_array_def)
  ultimately have "nat (int i * isz + off) + nat sz \<le> length buf"
    using assms by (simp add: packed_array_def nat_add_distrib[symmetric] nat_le_iff)
  then show ?thesis
    by (simp add: item_key_def)
qed

lemma cmp_zero_sym:
  assumes "valid_compare cmp sz" "length a = nat sz" "length b = nat sz"
  shows "(cmp a b sz = 0) = (cmp b a sz = 0)"
proof -
  have "(cmp a b sz < 0) = (0 < cmp b a sz)" "(cmp b a sz < 0) = (0 < cmp a b sz)"
    using assms by (auto simp: valid_compare_def)
  then show ?thesis by linarith
qed

lemma sign_up:
  assumes v: "valid_compare cmp sz" and la: "length a = nat sz" "length b = nat sz" "length t = nat sz"
    and ab: "cmp a b sz \<le> 0" and tb: "0 < cmp t b sz"
  shows "0 < cmp t a sz"
proof (rule ccontr)
  assume "\<not> 0 < cmp t a sz"
  then have "cmp t a sz \<le> 0" by simp
  then have "cmp t b sz \<le> 0"
    using v la ab unfolding valid_compare_def by blast
  then show False using tb by simp
qed

lemma sign_down:
  assumes v: "valid_compare cmp sz" and la: "length a = nat sz" "length b = nat sz" "length t = nat sz"
    and ab: "cmp a b sz \<le> 0" and ta: "cmp t a sz < 0"
  shows "cmp t b sz < 0"
proof (rule ccontr)
  assume "\<not> cmp t b sz < 0"
  then have "\<not> 0 < cmp b t sz" using v la unfolding valid_compare_def by blast
  then have "cmp b t sz \<le> 0" by simp
  then have "cmp a t sz \<le> 0" using v la ab unfolding valid_compare_def by blast
  then have "\<not> 0 < cmp a t sz" by simp
  then have "\<not> cmp t a sz < 0" using v la unfolding valid_compare_def by blast
  then show False using ta by simp
qed

lemma sorted_signs:
  assumes v: "valid_compare cmp sz" and pk: "packed_array buf isz off sz n"
    and lt: "length t = nat sz"
    and so: "keys_sorted cmp sz (item_keys buf isz off sz n)"
  shows "i \<le> j \<Longrightarrow> j < n \<Longrightarrow> 0 < cmp t (item_key buf isz off sz j) sz \<Longrightarrow>
           0 < cmp t (item_key buf isz off sz i) sz"
    and "i \<le> j \<Longrightarrow> j < n \<Longrightarrow> cmp t (item_key buf isz off sz i) sz < 0 \<Longrightarrow>
           cmp t (item_key buf isz off sz j) sz < 0"
proof -
  have ord: "cmp (item_key buf isz off sz i) (item_key buf isz off sz j) sz \<le> 0"
    if "i < j" "j < n" for i j
    using so that by (simp add: keys_sorted_def item_keys_def sorted_wrt_iff_nth_less)
  {
    assume ij: "i \<le> j" "j < n" and pos: "0 < cmp t (item_key buf isz off sz j) sz"
    show "0 < cmp t (item_key buf isz off sz i) sz"
    proof (cases "i = j")
      case True then show ?thesis using pos by simp
    next
      case False
      then have "i < j" using ij by simp
      from sign_up[OF v length_item_key[OF pk] length_item_key[OF pk ij(2)] lt ord[OF this ij(2)] pos]
      show ?thesis using \<open>i < j\<close> ij by simp
    qed
  }
  {
    assume ij: "i \<le> j" "j < n" and neg: "cmp t (item_key buf isz off sz i) sz < 0"
    show "cmp t (item_key buf isz off sz j) sz < 0"
    proof (cases "i = j")
      case True then show ?thesis using neg by simp
    next
      case False
      then have "i < j" using ij by simp
      from sign_down[OF v length_item_key[OF pk] length_item_key[OF pk ij(2)] lt ord[OF this ij(2)] neg]
      show ?thesis using \<open>i < j\<close> ij by simp
    qed
  }
qed

lemma search_one_post:
  assumes v: "valid_compare (the_compare compare) tsz"
    and pk: "packed_array buf isz off tsz n"
    and tl: "tsz \<le> int (length target)"
    and so: "keys_sorted (the_compare compare) tsz (item_keys buf isz off tsz n)"
  shows "\<exists>r idx. bp_bi_search_one buf (int n * isz) isz target tsz off compare = Some (r, int idx) \<and>
     search_post (\<lambda>i. the_compare compare (take (nat tsz) target) (item_key buf isz off tsz i) tsz) n r idx"
proof (cases "n = 0")
  case True
  then show ?thesis by (auto simp: bp_bi_search_one_def search_post_def)
next
  case False
  have isz: "0 < isz" and off: "0 \<le> off" and tsz: "0 \<le> tsz" and fit: "off + tsz \<le> isz"
    and len: "int n * isz \<le> int (length buf)"
    using pk by (auto simp: packed_array_def)
  have lt: "length (take (nat tsz) target) = nat tsz" using tl tsz by simp
  have ne: "0 \<noteq> int n * isz" using False isz by simp
  let ?s = "\<lambda>i. the_compare compare (take (nat tsz) target) (item_key buf isz off tsz i) tsz"
  have "\<exists>r idx. search_one_loop (the_compare compare) buf isz target tsz off (int n) (int 0 * isz)
        (int (0 + n) * isz - isz) None None = Some (r, int idx) \<and> search_post ?s n r idx"
    by (rule search_one_loop_correct[OF isz off tsz tl fit len
          sorted_signs(1)[OF v pk lt so] sorted_signs(2)[OF v pk lt so]])
       (use False in auto)
  moreover have "(int n - 1) * isz = int n * isz - isz" by (simp add: algebra_simps)
  ultimately show ?thesis
    using ne by (simp add: bp_bi_search_one_def c_div_mult[OF isz])
qed

lemma first_greater_eq:
  assumes "idx \<le> n" "\<forall>i<idx. 0 < s i" "\<forall>i. idx \<le> i \<and> i < n \<longrightarrow> s i < (0::int)"
    and "\<And>i. i < n \<Longrightarrow> s i = cmp t (K i) sz"
  shows "first_greater cmp sz t (map K [0..<n]) = idx"
proof -
  have "takeWhile (\<lambda>k. \<not> cmp t k sz < 0) (map K [0..<n]) = take idx (map K [0..<n])"
  proof (rule takeWhile_eq_take_P_nth)
    fix i assume "i < idx" "i < length (map K [0..<n])"
    then show "\<not> cmp t (map K [0..<n] ! i) sz < 0"
      using assms(2,4)[rule_format, of i] assms(1) by simp
  next
    assume "idx < length (map K [0..<n])"
    then show "\<not> \<not> cmp t (map K [0..<n] ! idx) sz < 0"
      using assms(3,4)[rule_format, of idx] by simp
  qed
  then show ?thesis using assms(1) by (simp add: first_greater_def)
qed


subsection \<open>Claim C3\<close>

text \<open>
  C3. For a packed array of \<open>n\<close> items whose keys are sorted under the comparator, and a
  target of \<open>tsz\<close> bytes: if some key matches the target, \<^verbatim>\<open>bp_bi_search_one\<close> returns 1
  with the index of a matching item; if no key matches, it returns 0 with the index of
  the first key greater than the target, which is \<open>n\<close> when the target exceeds all keys;
  and with \<open>content_len = 0\<close> it returns 0 with index 0.
\<close>

theorem search_one_correct:
  assumes "valid_compare (the_compare compare) tsz"
    and "packed_array buf item_size offset tsz n"
    and "tsz \<le> int (length target)"
    and "keys_sorted (the_compare compare) tsz (item_keys buf item_size offset tsz n)"
  shows "((\<exists>i<n. the_compare compare (take (nat tsz) target)
                 (item_key buf item_size offset tsz i) tsz = 0) \<longrightarrow>
          (\<exists>idx<n. bp_bi_search_one buf (int n * item_size) item_size target tsz offset compare
                      = Some (1, int idx) \<and>
                   the_compare compare (take (nat tsz) target)
                     (item_key buf item_size offset tsz idx) tsz = 0)) \<and>
         ((\<forall>i<n. the_compare compare (take (nat tsz) target)
                 (item_key buf item_size offset tsz i) tsz \<noteq> 0) \<longrightarrow>
          bp_bi_search_one buf (int n * item_size) item_size target tsz offset compare
            = Some (0, int (first_greater (the_compare compare) tsz (take (nat tsz) target)
                              (item_keys buf item_size offset tsz n)))) \<and>
         bp_bi_search_one buf 0 item_size target tsz offset compare = Some (0, 0)"
proof -
  let ?s = "\<lambda>i. the_compare compare (take (nat tsz) target) (item_key buf item_size offset tsz i) tsz"
  obtain r idx where res:
    "bp_bi_search_one buf (int n * item_size) item_size target tsz offset compare = Some (r, int idx)"
    and post: "search_post ?s n r idx"
    using search_one_post[OF assms] by blast
  have A: "\<exists>idx<n. bp_bi_search_one buf (int n * item_size) item_size target tsz offset compare
                      = Some (1, int idx) \<and> ?s idx = 0" if "\<exists>i<n. ?s i = 0"
  proof -
    from that obtain i where i: "i < n" "?s i = 0" by blast
    have "r = 1 \<and> idx < n \<and> ?s idx = 0"
      using post i unfolding search_post_def
      by (metis less_irrefl linorder_not_less)
    then show ?thesis using res by blast
  qed
  have B: "bp_bi_search_one buf (int n * item_size) item_size target tsz offset compare
            = Some (0, int (first_greater (the_compare compare) tsz (take (nat tsz) target)
                              (item_keys buf item_size offset tsz n)))" if "\<forall>i<n. ?s i \<noteq> 0"
  proof -
    have r0: "r = 0 \<and> idx \<le> n \<and> (\<forall>i<idx. 0 < ?s i) \<and> (\<forall>i. idx \<le> i \<and> i < n \<longrightarrow> ?s i < 0)"
      using post that unfolding search_post_def by blast
    then have "first_greater (the_compare compare) tsz (take (nat tsz) target)
                 (map (item_key buf item_size offset tsz) [0..<n]) = idx"
      by (intro first_greater_eq[where s = ?s]) auto
    then show ?thesis using res r0 by (simp add: item_keys_def)
  qed
  have C: "bp_bi_search_one buf 0 item_size target tsz offset compare = Some (0, 0)"
    by (simp add: bp_bi_search_one_def)
  show ?thesis using A B C by blast
qed

text \<open>
  The array \<^verbatim>\<open>"112233445566778899"\<close> of \<^verbatim>\<open>TEST(BiSearch, FindOne)\<close>, searched for the absent
  key \<^verbatim>\<open>"12"\<close> and for the present key \<^verbatim>\<open>"33"\<close>.
\<close>

theorem search_one_correct_witness:
  "valid_compare (the_compare None) 2 \<and>
   packed_array (bytes_of ''112233445566778899'') 2 0 2 9 \<and>
   (2::int) \<le> int (length (bytes_of ''12'')) \<and>
   keys_sorted (the_compare None) 2 (item_keys (bytes_of ''112233445566778899'') 2 0 2 9) \<and>
   \<not> (\<exists>i<9. the_compare None (take (nat 2) (bytes_of ''12''))
       (item_key (bytes_of ''112233445566778899'') 2 0 2 i) 2 = 0) \<and>
   bp_bi_search_one (bytes_of ''112233445566778899'') (int 9 * 2) 2 (bytes_of ''12'') 2 0 None
     = Some (0, 1) \<and>
   the_compare None (take (nat 2) (bytes_of ''33''))
       (item_key (bytes_of ''112233445566778899'') 2 0 2 2) 2 = 0 \<and>
   (\<exists>idx<9. bp_bi_search_one (bytes_of ''112233445566778899'') (int 9 * 2) 2 (bytes_of ''33'')
       2 0 None = Some (1, int idx))"
proof -
  let ?c = "bytes_of ''112233445566778899''"
  have v: "valid_compare (the_compare None) 2"
    by (simp add: the_compare_def valid_compare_bp_compare)
  have p: "packed_array ?c 2 0 2 9"
    by (simp add: packed_array_def bytes_of_def)
  have l: "(2::int) \<le> int (length (bytes_of ''12''))" "(2::int) \<le> int (length (bytes_of ''33''))"
    by (simp_all add: bytes_of_def)
  have s: "keys_sorted (the_compare None) 2 (item_keys ?c 2 0 2 9)"
    by code_simp
  have absent: "\<forall>i<9. the_compare None (take (nat 2) (bytes_of ''12''))
       (item_key ?c 2 0 2 i) 2 \<noteq> 0"
    by (simp add: All_less_Suc numeral_eq_Suc) code_simp
  have fg: "first_greater (the_compare None) 2 (take (nat 2) (bytes_of ''12''))
       (item_keys ?c 2 0 2 9) = 1"
    by code_simp
  have present: "the_compare None (take (nat 2) (bytes_of ''33'')) (item_key ?c 2 0 2 2) 2 = 0"
    by code_simp
  have r1: "bp_bi_search_one ?c (int 9 * 2) 2 (bytes_of ''12'') 2 0 None = Some (0, 1)"
    using search_one_correct [OF v p l(1) s] absent fg by simp
  have ex: "\<exists>i<9. the_compare None (take (nat 2) (bytes_of ''33'')) (item_key ?c 2 0 2 i) 2 = 0"
    using present by (intro exI[of _ 2]) simp
  have r2: "\<exists>idx<9. bp_bi_search_one ?c (int 9 * 2) 2 (bytes_of ''33'') 2 0 None
       = Some (1, int idx)"
    using search_one_correct [OF v p l(2) s] ex by blast
  show ?thesis using v p l(1) s absent r1 present r2 by blast
qed

subsection \<open>Claim C7\<close>

lemma search_first_loop_correct:
  fixes s :: "nat \<Rightarrow> int"
  assumes isz: "0 < isz" and off: "0 \<le> off" and tsz: "0 \<le> tsz" "tsz \<le> int (length target)"
    and fit: "off + tsz \<le> isz" and len: "int n * isz \<le> int (length buf)"
    and up: "\<And>i j. i \<le> j \<Longrightarrow> j < n \<Longrightarrow> 0 < s j \<Longrightarrow> 0 < s i"
    and down: "\<And>i j. i \<le> j \<Longrightarrow> j < n \<Longrightarrow> s i < 0 \<Longrightarrow> s j < 0"
    and sym: "\<And>i. i < n \<Longrightarrow> (cmp (item_key buf isz off tsz i) (take (nat tsz) target) tsz = 0) = (s i = 0)"
  shows "idx < n \<Longrightarrow> s idx = 0 \<Longrightarrow>
     \<exists>i0\<le>idx. search_first_loop cmp buf isz target tsz off (int idx) = Some (int i0) \<and>
        s i0 = 0 \<and> (\<forall>j<i0. s j \<noteq> 0)"
proof (induction idx)
  case 0
  then show ?case by simp
next
  case (Suc idx)
  have rd: "mem_read buf (int idx * isz + off) tsz = Some (item_key buf isz off tsz idx)"
    using mem_read_item[OF isz off tsz(1) fit len, of idx] Suc.prems by simp
  have unfold: "search_first_loop cmp buf isz target tsz off (int (Suc idx)) =
     (if s idx = 0 then search_first_loop cmp buf isz target tsz off (int idx)
      else Some (int (Suc idx)))"
    using rd mem_read_target[OF tsz] sym[of idx] Suc.prems
    by (subst search_first_loop.simps) (auto simp: )
  show ?case
  proof (cases "s idx = 0")
    case True
    with Suc.IH Suc.prems obtain i0 where "i0 \<le> idx"
      "search_first_loop cmp buf isz target tsz off (int idx) = Some (int i0)"
      "s i0 = 0" "\<forall>j<i0. s j \<noteq> 0" by auto
    then show ?thesis using unfold True by (intro exI[of _ i0]) auto
  next
    case False
    have "0 < s idx"
    proof (rule ccontr)
      assume "\<not> 0 < s idx"
      then have "s idx < 0" using False by simp
      from down[OF _ _ this, of "Suc idx"] Suc.prems show False by simp
    qed
    then have "\<forall>j<Suc idx. s j \<noteq> 0"
      using up[of _ idx] Suc.prems by (metis less_Suc_eq_le less_irrefl Suc_lessD)
    then show ?thesis using unfold False Suc.prems by (intro exI[of _ "Suc idx"]) auto
  qed
qed

lemma search_last_loop_correct:
  fixes s :: "nat \<Rightarrow> int"
  assumes isz: "0 < isz" and off: "0 \<le> off" and tsz: "0 \<le> tsz" "tsz \<le> int (length target)"
    and fit: "off + tsz \<le> isz" and len: "int n * isz \<le> int (length buf)"
    and up: "\<And>i j. i \<le> j \<Longrightarrow> j < n \<Longrightarrow> 0 < s j \<Longrightarrow> 0 < s i"
    and down: "\<And>i j. i \<le> j \<Longrightarrow> j < n \<Longrightarrow> s i < 0 \<Longrightarrow> s j < 0"
    and sym: "\<And>i. i < n \<Longrightarrow> (cmp (item_key buf isz off tsz i) (take (nat tsz) target) tsz = 0) = (s i = 0)"
  shows "idx < n \<Longrightarrow> s idx = 0 \<Longrightarrow>
     \<exists>i1\<ge>idx. i1 < n \<and> search_last_loop cmp buf (int n * isz) isz target tsz off (int idx) = Some (int i1) \<and>
        s i1 = 0 \<and> (\<forall>j. i1 < j \<and> j < n \<longrightarrow> s j \<noteq> 0)"
proof (induction "n - idx" arbitrary: idx rule: less_induct)
  case less
  show ?case
  proof (cases "Suc idx < n")
    case False
    then have "\<not> int idx < int n - 1" by simp
    then have "search_last_loop cmp buf (int n * isz) isz target tsz off (int idx) = Some (int idx)"
      using isz by (subst search_last_loop.simps) (simp add: trunc_div_mult)
    then show ?thesis using less.prems False by (intro exI[of _ idx]) auto
  next
    case True
    then have lt: "int idx < int n - 1" by simp
    have rd: "mem_read buf ((int idx + 1) * isz + off) tsz = Some (item_key buf isz off tsz (Suc idx))"
      using mem_read_item[OF isz off tsz(1) fit len True] by (simp add: algebra_simps)
    have unfold: "search_last_loop cmp buf (int n * isz) isz target tsz off (int idx) =
       (if s (Suc idx) = 0 then search_last_loop cmp buf (int n * isz) isz target tsz off (int (Suc idx))
        else Some (int idx))"
      using rd mem_read_target[OF tsz] sym[OF True] lt isz
      by (subst search_last_loop.simps) (auto simp: trunc_div_mult add.commute)
    show ?thesis
    proof (cases "s (Suc idx) = 0")
      case z: True
      have "n - Suc idx < n - idx" using True by simp
      from less.hyps[OF this True z] obtain i1 where "Suc idx \<le> i1" "i1 < n"
        "search_last_loop cmp buf (int n * isz) isz target tsz off (int (Suc idx)) = Some (int i1)"
        "s i1 = 0" "\<forall>j. i1 < j \<and> j < n \<longrightarrow> s j \<noteq> 0" by auto
      then show ?thesis using unfold z by (intro exI[of _ i1]) auto
    next
      case nz: False
      have "s (Suc idx) < 0"
      proof (rule ccontr)
        assume "\<not> s (Suc idx) < 0"
        then have "0 < s (Suc idx)" using nz by simp
        from up[OF _ True this, of idx] less.prems show False by simp
      qed
      then have "\<forall>j. idx < j \<and> j < n \<longrightarrow> s j \<noteq> 0"
        using down[of "Suc idx"] by (metis Suc_leI less_irrefl)
      then show ?thesis using unfold nz less.prems by (intro exI[of _ idx]) auto
    qed
  qed
qed

text \<open>
  C7. For a packed array of \<open>n\<close> items sorted under the comparator: if some key equals
  the target, \<^verbatim>\<open>bp_bi_search_first\<close> returns 1 with the leftmost index \<open>l\<close> whose key equals
  the target and \<^verbatim>\<open>bp_bi_search_last\<close> returns 1 with the rightmost such index \<open>r\<close>; if no key
  equals the target, both return 0 with the index that \<^verbatim>\<open>bp_bi_search_one\<close> returns.
\<close>

theorem search_first_last_correct:
  assumes "valid_compare (the_compare compare) tsz"
    and "packed_array buf item_size offset tsz n"
    and "tsz \<le> int (length target)"
    and "keys_sorted (the_compare compare) tsz (item_keys buf item_size offset tsz n)"
  shows "((\<exists>i<n. the_compare compare (take (nat tsz) target)
                 (item_key buf item_size offset tsz i) tsz = 0) \<longrightarrow>
          (\<exists>l r. l < n \<and> r < n \<and>
             bp_bi_search_first buf (int n * item_size) item_size target tsz offset compare
               = Some (1, int l) \<and>
             bp_bi_search_last buf (int n * item_size) item_size target tsz offset compare
               = Some (1, int r) \<and>
             the_compare compare (take (nat tsz) target)
               (item_key buf item_size offset tsz l) tsz = 0 \<and>
             (\<forall>j<l. the_compare compare (take (nat tsz) target)
                (item_key buf item_size offset tsz j) tsz \<noteq> 0) \<and>
             the_compare compare (take (nat tsz) target)
               (item_key buf item_size offset tsz r) tsz = 0 \<and>
             (\<forall>j. r < j \<and> j < n \<longrightarrow> the_compare compare (take (nat tsz) target)
                (item_key buf item_size offset tsz j) tsz \<noteq> 0))) \<and>
         ((\<forall>i<n. the_compare compare (take (nat tsz) target)
                 (item_key buf item_size offset tsz i) tsz \<noteq> 0) \<longrightarrow>
          (\<exists>idx. bp_bi_search_one buf (int n * item_size) item_size target tsz offset compare
                    = Some (0, idx) \<and>
                 bp_bi_search_first buf (int n * item_size) item_size target tsz offset compare
                    = Some (0, idx) \<and>
                 bp_bi_search_last buf (int n * item_size) item_size target tsz offset compare
                    = Some (0, idx)))"
proof -
  let ?cmp = "the_compare compare"
  let ?t = "take (nat tsz) target"
  let ?K = "item_key buf item_size offset tsz"
  let ?s = "\<lambda>i. ?cmp ?t (?K i) tsz"
  have isz: "0 < item_size" and off: "0 \<le> offset" and tsz: "0 \<le> tsz"
    and fit: "offset + tsz \<le> item_size" and len: "int n * item_size \<le> int (length buf)"
    using assms(2) by (auto simp: packed_array_def)
  have lt: "length ?t = nat tsz" using assms(3) tsz by simp
  note up = sorted_signs(1)[OF assms(1,2) lt assms(4)]
  note down = sorted_signs(2)[OF assms(1,2) lt assms(4)]
  have sym: "(?cmp (?K i) ?t tsz = 0) = (?s i = 0)" if "i < n" for i
    using cmp_zero_sym[OF assms(1) length_item_key[OF assms(2) that] lt] .
  have tc: "the_compare (Some ?cmp) = ?cmp" by (simp add: the_compare_def)
  have v': "valid_compare (the_compare (Some ?cmp)) tsz" using assms(1) tc by simp
  have so': "keys_sorted (the_compare (Some ?cmp)) tsz (item_keys buf item_size offset tsz n)"
    using assms(4) tc by simp
  obtain r idx where res:
    "bp_bi_search_one buf (int n * item_size) item_size target tsz offset (Some ?cmp) = Some (r, int idx)"
    and post: "search_post ?s n r idx"
    using search_one_post[OF v' assms(2,3) so'] tc by auto
  have same: "bp_bi_search_one buf (int n * item_size) item_size target tsz offset compare
     = bp_bi_search_one buf (int n * item_size) item_size target tsz offset (Some ?cmp)"
    by (simp add: bp_bi_search_one_def tc)
  have A: "\<exists>l r. l < n \<and> r < n \<and>
             bp_bi_search_first buf (int n * item_size) item_size target tsz offset compare
               = Some (1, int l) \<and>
             bp_bi_search_last buf (int n * item_size) item_size target tsz offset compare
               = Some (1, int r) \<and>
             ?s l = 0 \<and> (\<forall>j<l. ?s j \<noteq> 0) \<and> ?s r = 0 \<and> (\<forall>j. r < j \<and> j < n \<longrightarrow> ?s j \<noteq> 0)"
    if "\<exists>i<n. ?s i = 0"
  proof -
    from that obtain i where i: "i < n" "?s i = 0" by blast
    have r1: "r = 1 \<and> idx < n \<and> ?s idx = 0"
      using post i unfolding search_post_def
      by (metis less_irrefl linorder_not_less)
    have "\<exists>i0\<le>idx. search_first_loop ?cmp buf item_size target tsz offset (int idx) = Some (int i0) \<and>
        ?s i0 = 0 \<and> (\<forall>j<i0. ?s j \<noteq> 0)"
    proof (rule search_first_loop_correct[where s = ?s and n = n])
      show "\<And>i j. i \<le> j \<Longrightarrow> j < n \<Longrightarrow> 0 < ?s j \<Longrightarrow> 0 < ?s i" by (rule up)
      show "\<And>i j. i \<le> j \<Longrightarrow> j < n \<Longrightarrow> ?s i < 0 \<Longrightarrow> ?s j < 0" by (rule down)
      show "\<And>i. i < n \<Longrightarrow> (?cmp (?K i) ?t tsz = 0) = (?s i = 0)" by (rule sym)
    qed (use isz off tsz assms(3) fit len r1 in auto)
    then obtain i0 where i0: "i0 \<le> idx"
      "search_first_loop ?cmp buf item_size target tsz offset (int idx) = Some (int i0)"
      "?s i0 = 0" "\<forall>j<i0. ?s j \<noteq> 0" by blast
    have "\<exists>i1\<ge>idx. i1 < n \<and> search_last_loop ?cmp buf (int n * item_size) item_size target tsz offset (int idx) = Some (int i1) \<and>
        ?s i1 = 0 \<and> (\<forall>j. i1 < j \<and> j < n \<longrightarrow> ?s j \<noteq> 0)"
    proof (rule search_last_loop_correct[where s = ?s and n = n])
      show "\<And>i j. i \<le> j \<Longrightarrow> j < n \<Longrightarrow> 0 < ?s j \<Longrightarrow> 0 < ?s i" by (rule up)
      show "\<And>i j. i \<le> j \<Longrightarrow> j < n \<Longrightarrow> ?s i < 0 \<Longrightarrow> ?s j < 0" by (rule down)
      show "\<And>i. i < n \<Longrightarrow> (?cmp (?K i) ?t tsz = 0) = (?s i = 0)" by (rule sym)
    qed (use isz off tsz assms(3) fit len r1 in auto)
    then obtain i1 where i1: "idx \<le> i1" "i1 < n"
      "search_last_loop ?cmp buf (int n * item_size) item_size target tsz offset (int idx) = Some (int i1)"
      "?s i1 = 0" "\<forall>j. i1 < j \<and> j < n \<longrightarrow> ?s j \<noteq> 0" by blast
    have f: "bp_bi_search_first buf (int n * item_size) item_size target tsz offset compare
               = Some (1, int i0)"
      using res r1 i0(2) by (simp add: bp_bi_search_first_def)
    have l: "bp_bi_search_last buf (int n * item_size) item_size target tsz offset compare
               = Some (1, int i1)"
      using res r1 i1(3) by (simp add: bp_bi_search_last_def)
    have "i0 < n" using i0(1) r1 by simp
    then show ?thesis using f l i0 i1 by blast
  qed
  have B: "\<exists>idx. bp_bi_search_one buf (int n * item_size) item_size target tsz offset compare
                    = Some (0, idx) \<and>
                 bp_bi_search_first buf (int n * item_size) item_size target tsz offset compare
                    = Some (0, idx) \<and>
                 bp_bi_search_last buf (int n * item_size) item_size target tsz offset compare
                    = Some (0, idx)"
    if "\<forall>i<n. ?s i \<noteq> 0"
  proof -
    have r0: "r = 0" using post that unfolding search_post_def by blast
    show ?thesis
      using res r0 same by (simp add: bp_bi_search_first_def bp_bi_search_last_def)
  qed
  show ?thesis using A B by blast
qed

text \<open>
  The array \<^verbatim>\<open>"111133335555777799"\<close> of \<^verbatim>\<open>TEST(BiSearch, FindFirst)\<close>, with the key at
  offset 1 of each item, searched for the present key \<^verbatim>\<open>"3"\<close> and the absent key \<^verbatim>\<open>"4"\<close>.
\<close>

theorem search_first_last_correct_witness:
  "valid_compare (the_compare None) 1 \<and>
   packed_array (bytes_of ''111133335555777799'') 2 1 1 9 \<and>
   (1::int) \<le> int (length (bytes_of ''3'')) \<and>
   keys_sorted (the_compare None) 1 (item_keys (bytes_of ''111133335555777799'') 2 1 1 9) \<and>
   the_compare None (take (nat 1) (bytes_of ''3''))
       (item_key (bytes_of ''111133335555777799'') 2 1 1 2) 1 = 0 \<and>
   bp_bi_search_first (bytes_of ''111133335555777799'') (int 9 * 2) 2 (bytes_of ''3'') 1 1 None
     = Some (1, 2) \<and>
   bp_bi_search_last (bytes_of ''111133335555777799'') (int 9 * 2) 2 (bytes_of ''3'') 1 1 None
     = Some (1, 3) \<and>
   \<not> (\<exists>i<9. the_compare None (take (nat 1) (bytes_of ''4''))
       (item_key (bytes_of ''111133335555777799'') 2 1 1 i) 1 = 0) \<and>
   (\<exists>idx. bp_bi_search_one (bytes_of ''111133335555777799'') (int 9 * 2) 2 (bytes_of ''4'') 1 1 None
             = Some (0, idx) \<and>
          bp_bi_search_first (bytes_of ''111133335555777799'') (int 9 * 2) 2 (bytes_of ''4'') 1 1 None
             = Some (0, idx) \<and>
          bp_bi_search_last (bytes_of ''111133335555777799'') (int 9 * 2) 2 (bytes_of ''4'') 1 1 None
             = Some (0, idx))"
proof -
  let ?c = "bytes_of ''111133335555777799''"
  have v: "valid_compare (the_compare None) 1"
    by (simp add: the_compare_def valid_compare_bp_compare)
  have p: "packed_array ?c 2 1 1 9"
    by (simp add: packed_array_def bytes_of_def)
  have l: "(1::int) \<le> int (length (bytes_of ''3''))" "(1::int) \<le> int (length (bytes_of ''4''))"
    by (simp_all add: bytes_of_def)
  have s: "keys_sorted (the_compare None) 1 (item_keys ?c 2 1 1 9)"
    by code_simp
  have present: "the_compare None (take (nat 1) (bytes_of ''3'')) (item_key ?c 2 1 1 2) 1 = 0"
    by code_simp
  have absent: "\<forall>i<9. the_compare None (take (nat 1) (bytes_of ''4''))
       (item_key ?c 2 1 1 i) 1 \<noteq> 0"
    by (simp add: All_less_Suc numeral_eq_Suc) code_simp
  have f: "bp_bi_search_first ?c (int 9 * 2) 2 (bytes_of ''3'') 1 1 None = Some (1, 2)"
    by code_simp
  have la: "bp_bi_search_last ?c (int 9 * 2) 2 (bytes_of ''3'') 1 1 None = Some (1, 3)"
    by code_simp
  have r: "\<exists>idx. bp_bi_search_one ?c (int 9 * 2) 2 (bytes_of ''4'') 1 1 None = Some (0, idx) \<and>
          bp_bi_search_first ?c (int 9 * 2) 2 (bytes_of ''4'') 1 1 None = Some (0, idx) \<and>
          bp_bi_search_last ?c (int 9 * 2) 2 (bytes_of ''4'') 1 1 None = Some (0, idx)"
    using search_first_last_correct [OF v p l(2) s] absent by blast
  show ?thesis using v p l(1) s present f la absent r by blast
qed

section \<open>Pointers, buffers and allocation\<close>

lemma length_ptr_bytes: "length (ptr_bytes p) = 8"
  by (simp add: ptr_bytes_def)

lemma bytes_ptr_ptr_bytes: "bytes_ptr (ptr_bytes p) = p"
proof (rule bit_word_eqI)
  fix n assume n: "n < LENGTH(64)"
  then have d: "n div 8 < 8" by simp
  have "bit (bytes_ptr (ptr_bytes p)) n \<longleftrightarrow>
        bit (horner_sum uint (2 ^ LENGTH(8)) (ptr_bytes p)) n"
    using n by (simp add: bytes_ptr_def word_rcat_def bit_word_of_int_iff)
  also have "\<dots> \<longleftrightarrow> n div LENGTH(8) < length (ptr_bytes p) \<and>
        bit (ptr_bytes p ! (n div LENGTH(8))) (n mod LENGTH(8))"
    by (rule bit_horner_sum_uint_exp_iff)
  also have "\<dots> \<longleftrightarrow> bit (ptr_bytes p ! (n div 8)) (n mod 8)"
    using d by (simp add: length_ptr_bytes)
  also have "\<dots> \<longleftrightarrow> bit p (8 * (n div 8) + n mod 8)"
    using d by (simp add: ptr_bytes_def bit_ucast_iff bit_drop_bit_eq del: upt_Suc)
  also have "8 * (n div 8) + n mod 8 = n" by simp
  finally show "bit (bytes_ptr (ptr_bytes p)) n = bit p n" .
qed

lemma mem_write_length: "mem_write buf off bs = Some buf' \<Longrightarrow> length buf' = length buf"
  by (auto simp: mem_write_def split: if_splits)

lemma mem_read_mem_write:
  "mem_write buf off bs = Some buf' \<Longrightarrow> mem_read buf' off (int (length bs)) = Some bs"
  by (auto simp: mem_write_def mem_read_def split: if_splits)

lemma take_mem_write:
  "mem_write buf off bs = Some buf' \<Longrightarrow> int n \<le> off \<Longrightarrow> take n buf' = take n buf"
  by (auto simp: mem_write_def split: if_splits)

lemma malloc_nodes: "malloc h = Some (a, h') \<Longrightarrow> nodes h' = nodes h"
  by (auto simp: malloc_def split: list.splits if_splits option.splits)

lemma malloc_fresh: "malloc h = Some (a, h') \<Longrightarrow> a \<noteq> NULL \<Longrightarrow> nodes h a = None"
  by (auto simp: malloc_def split: list.splits if_splits option.splits)

lemma item_key_take:
  assumes "0 \<le> int i * isz + off" "0 \<le> sz" "int i * isz + off + sz \<le> int n"
  shows "item_key (take n buf) isz off sz i = item_key buf isz off sz i"
proof -
  let ?k = "nat (int i * isz + off)"
  have "?k + nat sz \<le> n" using assms by linarith
  then have "min (nat sz) (n - ?k) = nat sz" by simp
  then show ?thesis by (simp add: item_key_def drop_take)
qed

lemma item_key_drop:
  assumes "0 \<le> int i * isz + off" "0 \<le> int j * isz"
  shows "item_key (drop (nat (int j * isz)) buf) isz off sz i = item_key buf isz off sz (i + j)"
proof -
  have "nat (int i * isz + off) + nat (int j * isz) = nat (int (i + j) * isz + off)"
    using assms by (simp add: nat_add_distrib algebra_simps)
  then show ?thesis by (simp add: item_key_def)
qed

lemma item_keys_eqI:
  "(\<And>i. i < n \<Longrightarrow> item_key b1 isz off sz i = f i) \<Longrightarrow>
   item_keys b1 isz off sz n = map f [0..<n]"
  by (simp add: item_keys_def)

lemma take_item_keys:
  "k \<le> n \<Longrightarrow> take k (item_keys buf isz off sz n) = item_keys buf isz off sz k"
  by (simp add: item_keys_def take_map)

lemma drop_item_keys:
  "drop k (item_keys buf isz off sz n) = map (\<lambda>i. item_key buf isz off sz (i + k)) [0..<n - k]"
proof (cases "k \<le> n")
  case True
  have "[k..<n] = map (\<lambda>i. i + k) [0..<n - k]"
    using map_add_upt[of k "n - k"] True by simp
  then show ?thesis by (simp add: item_keys_def drop_map comp_def)
next
  case False
  then show ?thesis by (simp add: item_keys_def)
qed

lemma mem_write_ok:
  "0 \<le> off \<Longrightarrow> off + int (length bs) \<le> int (length buf) \<Longrightarrow>
   \<exists>buf'. mem_write buf off bs = Some buf'"
  by (simp add: mem_write_def)

lemma mem_write_prefix0:
  "mem_write buf 0 bs = Some buf' \<Longrightarrow> take (length bs) buf' = bs"
  by (auto simp: mem_write_def split: if_splits)

lemma sorted_wrt_take_drop:
  "sorted_wrt R ks \<Longrightarrow> a \<in> set (take k ks) \<Longrightarrow> b \<in> set (drop k ks) \<Longrightarrow> R a b"
  using sorted_wrt_append[of R "take k ks" "drop k ks"] by simp

section \<open>Leaf split\<close>

lemma trunc_div_nonneg2: "0 \<le> c \<Longrightarrow> trunc_div c 2 = c div 2"
  by (simp add: trunc_div_def)

lemma leaf_split_result:
  assumes d: "the_data h p = Some d" and wf: "data_node_wf d"
    and m: "malloc h = Some (q, h1)" and q: "q \<noteq> NULL"
  shows "\<exists>cold cnew nxt.
     bp_data_node_split h p = Some (0, q,
        put_node (put_node (put_node h1 q (Data_node
         \<lparr>node_type = BP_NODE_TYPE_DATA,
          insert_fn = Some Fn_bp_data_node_insert_data,
          max_key_fn = Some Fn_bp_data_node_max_key,
          compare_fn = compare_fn d,
          max_key_num = max_key_num d,
          min_key_num = min_key_num d,
          key_num = 0,
          key_size = key_size d,
          value_size = value_size d,
          content_len = content_len d,
          content = replicate (nat (content_len d)) 0\<rparr>)) p (Data_node (d\<lparr>key_num := key_num d div 2, content := cold\<rparr>)))
          q (Data_node
         \<lparr>node_type = BP_NODE_TYPE_DATA,
          insert_fn = Some Fn_bp_data_node_insert_data,
          max_key_fn = Some Fn_bp_data_node_max_key,
          compare_fn = compare_fn d,
          max_key_num = max_key_num d,
          min_key_num = min_key_num d,
          key_num = key_num d - key_num d div 2,
          key_size = key_size d,
          value_size = value_size d,
          content_len = content_len d,
          content = cnew\<rparr>)) \<and>
     length cold = length (content d) \<and> length cnew = length (content d) \<and>
     take (nat (content_len d - ptr_size)) cold = take (nat (content_len d - ptr_size)) (content d) \<and>
     take (nat ((key_num d - key_num d div 2) * (key_size d + value_size d))) cnew =
       take (nat ((key_num d - key_num d div 2) * (key_size d + value_size d)))
         (drop (nat (key_num d div 2 * (key_size d + value_size d))) (content d)) \<and>
     mem_read (content d) (content_len d - ptr_size) ptr_size = Some nxt \<and>
     mem_read cnew (content_len d - ptr_size) ptr_size = Some (ptr_bytes (bytes_ptr nxt)) \<and>
     mem_read cold (content_len d - ptr_size) ptr_size = Some (ptr_bytes q)"
proof -
  let ?isz = "key_size d + value_size d"
  let ?c = "key_num d"
  let ?c2 = "key_num d div 2"
  let ?L = "content_len d"
  let ?new0 = "\<lparr>node_type = BP_NODE_TYPE_DATA,
          insert_fn = Some Fn_bp_data_node_insert_data,
          max_key_fn = Some Fn_bp_data_node_max_key,
          compare_fn = compare_fn d,
          max_key_num = max_key_num d,
          min_key_num = min_key_num d,
          key_num = 0,
          key_size = key_size d,
          value_size = value_size d,
          content_len = content_len d,
          content = replicate (nat (content_len d)) 0\<rparr>"
  have ks: "0 \<le> key_size d" "0 \<le> value_size d" and c0: "0 \<le> ?c" and cM: "?c \<le> max_key_num d"
    and L: "?L = max_key_num d * ?isz + ptr_size" and len: "int (length (content d)) = ?L"
    using wf by (auto simp: data_node_wf_def bp_calc_data_node_content_len_def)
  have isz: "0 \<le> ?isz" using ks by simp
  have "?c * ?isz \<le> max_key_num d * ?isz" using cM isz by (intro mult_right_mono) auto
  then have fits: "?c * ?isz \<le> ?L - ptr_size" using L by simp
  have L8: "0 \<le> ?L - ptr_size" using fits c0 isz by (smt (verit) mult_nonneg_nonneg)
  have L0: "\<not> ?L < 0" using L8 by (simp add: ptr_size_def)
  have c2: "0 \<le> ?c2" "?c2 \<le> ?c" using c0 by auto
  have off: "0 \<le> ?c2 * ?isz" using c2 isz by simp
  have cl: "0 \<le> (?c - ?c2) * ?isz" using c2 isz by simp
  have sum: "?c2 * ?isz + (?c - ?c2) * ?isz = ?c * ?isz" by (simp add: algebra_simps)
  have cr: "bp_create_data_node h (max_key_num d) (min_key_num d) (key_size d) (value_size d)
       (compare_fn d) = Some (q, put_node h1 q (Data_node ?new0))"
    using m q L0 L by (simp add: bp_create_data_node_def bp_calc_data_node_content_len_def Let_def)
  have tn: "the_data (put_node h1 q (Data_node ?new0)) q = Some ?new0"
    by (simp add: the_data_def put_node_def)
  define moved where "moved = take (nat ((?c - ?c2) * ?isz)) (drop (nat (?c2 * ?isz)) (content d))"
  have rd: "mem_read (content d) (?c2 * ?isz) ((?c - ?c2) * ?isz) = Some moved"
    using off cl sum fits len by (simp add: mem_read_def moved_def ptr_size_def)
  have "nat (?c2 * ?isz) + nat ((?c - ?c2) * ?isz) \<le> length (content d)"
    using off cl sum fits len by (simp add: ptr_size_def)
  then have lm: "length moved = nat ((?c - ?c2) * ?isz)" by (simp add: moved_def)
  have lm2: "int (length moved) \<le> ?L - ptr_size" using lm cl sum fits off by simp
  obtain c1 where c1: "mem_write (replicate (nat ?L) 0) 0 moved = Some c1"
    using mem_write_ok[of 0 moved "replicate (nat ?L) 0"] lm2 L8 by (auto simp: ptr_size_def)
  have lc1: "length c1 = nat ?L" using mem_write_length[OF c1] by simp
  have pc1: "take (length moved) c1 = moved" using mem_write_prefix0[OF c1] .
  obtain nxt where nxt: "mem_read (content d) (?L - ptr_size) ptr_size = Some nxt"
    using L8 len by (simp add: mem_read_def ptr_size_def)
  obtain cnew where cnew: "mem_write c1 (?L - ptr_size) (ptr_bytes (bytes_ptr nxt)) = Some cnew"
    using mem_write_ok[of "?L - ptr_size" "ptr_bytes (bytes_ptr nxt)" c1] L8 lc1
    by (auto simp: length_ptr_bytes ptr_size_def)
  obtain cold where cold: "mem_write (content d) (?L - ptr_size) (ptr_bytes q) = Some cold"
    using mem_write_ok[of "?L - ptr_size" "ptr_bytes q" "content d"] L8 len
    by (auto simp: length_ptr_bytes ptr_size_def)
  have res: "bp_data_node_split h p = Some (0, q,
        put_node (put_node (put_node h1 q (Data_node ?new0)) p
          (Data_node (d\<lparr>key_num := ?c2, content := cold\<rparr>)))
          q (Data_node (?new0\<lparr>key_num := ?c - ?c2, content := cnew\<rparr>)))"
    using d cr tn q rd c1 nxt cnew cold c0
    by (simp add: bp_data_node_split_def Let_def trunc_div_nonneg2 bp_data_node_get_pnext_def
        bp_data_node_set_pnext_def bp_data_node_get_pnext_save_position_def)
  have l1: "length cold = length (content d)" using mem_write_length[OF cold] .
  have l2: "length cnew = length (content d)" using mem_write_length[OF cnew] lc1 len by simp
  have t1: "take (nat (?L - ptr_size)) cold = take (nat (?L - ptr_size)) (content d)"
    using take_mem_write[OF cold, of "nat (?L - ptr_size)"] L8 by simp
  have "take (length moved) cnew = take (length moved) c1"
    using take_mem_write[OF cnew, of "length moved"] lm2 by simp
  then have t2: "take (nat ((?c - ?c2) * ?isz)) cnew = moved" using pc1 lm by simp
  have t2': "take (nat ((?c - ?c2) * ?isz)) moved = moved" using lm by simp
  have r1: "mem_read cnew (?L - ptr_size) ptr_size = Some (ptr_bytes (bytes_ptr nxt))"
    using mem_read_mem_write[OF cnew] by (simp add: length_ptr_bytes ptr_size_def)
  have r2: "mem_read cold (?L - ptr_size) ptr_size = Some (ptr_bytes q)"
    using mem_read_mem_write[OF cold] by (simp add: length_ptr_bytes ptr_size_def)
  show ?thesis
    using res l1 l2 t1 t2 nxt r1 r2 unfolding moved_def[symmetric]
    by (intro exI[of _ cold] exI[of _ cnew] exI[of _ nxt]) (simp add: moved_def)
qed

subsection \<open>Claim C4\<close>

text \<open>
  C4. A well-formed leaf \<open>d\<close> with \<open>c = key_num d\<close> items is split, and \<^verbatim>\<open>malloc\<close> returns
  the address \<open>q\<close>. The split returns 0 with \<^verbatim>\<open>*pp_new = q\<close>; the old node keeps
  \<open>c div 2\<close> items and the new node holds the other \<open>c - c div 2\<close>, so that the two counts
  add up to \<open>c\<close>; the keys of the old node are the first \<open>c div 2\<close> keys of \<open>d\<close> and the
  keys of the new node are the rest, so that when the keys of \<open>d\<close> are sorted every key
  left in the old node is \<open>\<le>\<close> every key moved to the new one; the next pointer of the
  new node is the next pointer \<open>d\<close> had, and the next pointer of the old node is \<open>q\<close>.
\<close>

theorem leaf_split_correct:
  assumes d: "the_data h p = Some d" and wf: "data_node_wf d"
    and m: "malloc h = Some (q, h1)" and q: "q \<noteq> NULL"
  shows "\<exists>h' old new nxt.
     bp_data_node_split h p = Some (0, q, h') \<and>
     the_data h' p = Some old \<and> the_data h' q = Some new \<and>
     key_num old = key_num d div 2 \<and>
     key_num new = key_num d - key_num d div 2 \<and>
     key_num old + key_num new = key_num d \<and>
     data_keys h' p = Some (take (nat (key_num d div 2))
        (item_keys (content d) (key_size d + value_size d) 0 (key_size d) (nat (key_num d)))) \<and>
     data_keys h' q = Some (drop (nat (key_num d div 2))
        (item_keys (content d) (key_size d + value_size d) 0 (key_size d) (nat (key_num d)))) \<and>
     (keys_sorted cmp (key_size d)
        (item_keys (content d) (key_size d + value_size d) 0 (key_size d) (nat (key_num d))) \<longrightarrow>
      (\<forall>a \<in> set (the (data_keys h' p)). \<forall>b \<in> set (the (data_keys h' q)).
         cmp a b (key_size d) \<le> 0)) \<and>
     bp_data_node_get_pnext d = Some nxt \<and>
     bp_data_node_get_pnext new = Some nxt \<and>
     bp_data_node_get_pnext old = Some q"
proof -
  let ?isz = "key_size d + value_size d"
  let ?c = "key_num d"
  let ?c2 = "key_num d div 2"
  let ?L = "content_len d"
  let ?ks = "item_keys (content d) ?isz 0 (key_size d) (nat ?c)"
  have ks: "0 \<le> key_size d" "0 \<le> value_size d" and c0: "0 \<le> ?c" and cM: "?c \<le> max_key_num d"
    and L: "?L = max_key_num d * ?isz + ptr_size" and len: "int (length (content d)) = ?L"
    using wf by (auto simp: data_node_wf_def bp_calc_data_node_content_len_def)
  have isz: "0 \<le> ?isz" using ks by simp
  have "?c * ?isz \<le> max_key_num d * ?isz" using cM isz by (intro mult_right_mono) auto
  then have fits: "?c * ?isz \<le> ?L - ptr_size" using L by simp
  have c2: "0 \<le> ?c2" "?c2 \<le> ?c" using c0 by auto
  have pq: "p \<noteq> q"
    using malloc_fresh[OF m q] d by (auto simp: the_data_def)
  from leaf_split_result[OF d wf m q] obtain cold cnew nxt h' old new where
    res: "bp_data_node_split h p = Some (0, q, h')"
    and h': "h' = put_node (put_node (put_node h1 q (Data_node
         \<lparr>node_type = BP_NODE_TYPE_DATA,
          insert_fn = Some Fn_bp_data_node_insert_data,
          max_key_fn = Some Fn_bp_data_node_max_key,
          compare_fn = compare_fn d,
          max_key_num = max_key_num d,
          min_key_num = min_key_num d,
          key_num = 0,
          key_size = key_size d,
          value_size = value_size d,
          content_len = content_len d,
          content = replicate (nat (content_len d)) 0\<rparr>)) p (Data_node old)) q (Data_node new)"
    and old: "old = d\<lparr>key_num := ?c2, content := cold\<rparr>"
    and new: "new = \<lparr>node_type = BP_NODE_TYPE_DATA,
          insert_fn = Some Fn_bp_data_node_insert_data,
          max_key_fn = Some Fn_bp_data_node_max_key,
          compare_fn = compare_fn d,
          max_key_num = max_key_num d,
          min_key_num = min_key_num d,
          key_num = ?c - ?c2,
          key_size = key_size d,
          value_size = value_size d,
          content_len = content_len d,
          content = cnew\<rparr>"
    and lcold: "length cold = length (content d)" and lcnew: "length cnew = length (content d)"
    and tcold: "take (nat (?L - ptr_size)) cold = take (nat (?L - ptr_size)) (content d)"
    and tcnew: "take (nat ((?c - ?c2) * ?isz)) cnew =
       take (nat ((?c - ?c2) * ?isz)) (drop (nat (?c2 * ?isz)) (content d))"
    and nxt: "mem_read (content d) (?L - ptr_size) ptr_size = Some nxt"
    and rnew: "mem_read cnew (?L - ptr_size) ptr_size = Some (ptr_bytes (bytes_ptr nxt))"
    and rold: "mem_read cold (?L - ptr_size) ptr_size = Some (ptr_bytes q)"
    by blast
  have tp: "the_data h' p = Some old" using pq by (simp add: h' the_data_def put_node_def)
  have tq: "the_data h' q = Some new" by (simp add: h' the_data_def put_node_def)
  have kold: "key_num old = ?c2" by (simp add: old)
  have knew: "key_num new = ?c - ?c2" by (simp add: new)
  \<comment> \<open>the keys that stay\<close>
  have key_old: "item_key cold ?isz 0 (key_size d) i = item_key (content d) ?isz 0 (key_size d) i"
    if "i < nat ?c2" for i
  proof -
    have "int (Suc i) * ?isz \<le> ?c2 * ?isz" using that isz by (intro mult_right_mono) auto
    moreover have "?c2 * ?isz \<le> ?c * ?isz" using c2 isz by (intro mult_right_mono) auto
    ultimately have b: "int i * ?isz + 0 + key_size d \<le> int (nat (?L - ptr_size))"
      using fits ks by (simp add: algebra_simps)
    have nn: "0 \<le> int i * ?isz + 0" using isz by simp
    have "item_key cold ?isz 0 (key_size d) i
        = item_key (take (nat (?L - ptr_size)) cold) ?isz 0 (key_size d) i"
      using item_key_take[OF nn ks(1) b] by simp
    also have "\<dots> = item_key (content d) ?isz 0 (key_size d) i"
      unfolding tcold using item_key_take[OF nn ks(1) b] by simp
    finally show ?thesis .
  qed
  have dk_old: "data_keys h' p = Some (take (nat ?c2) ?ks)"
  proof -
    have "item_keys cold ?isz 0 (key_size d) (nat ?c2) = item_keys (content d) ?isz 0 (key_size d) (nat ?c2)"
      using key_old by (simp add: item_keys_def)
    moreover have "nat ?c2 \<le> nat ?c" using c2 by simp
    ultimately show ?thesis
      using tp by (simp add: data_keys_def old take_item_keys)
  qed
  \<comment> \<open>the keys that move\<close>
  have key_new: "item_key cnew ?isz 0 (key_size d) i =
       item_key (content d) ?isz 0 (key_size d) (i + nat ?c2)"
    if "i < nat (?c - ?c2)" for i
  proof -
    have "int (Suc i) * ?isz \<le> (?c - ?c2) * ?isz" using that isz by (intro mult_right_mono) auto
    then have b: "int i * ?isz + 0 + key_size d \<le> int (nat ((?c - ?c2) * ?isz))"
      using ks by (simp add: algebra_simps)
    have nn: "0 \<le> int i * ?isz + 0" using isz by simp
    have nj: "0 \<le> int (nat ?c2) * ?isz" using isz by simp
    have "item_key cnew ?isz 0 (key_size d) i
        = item_key (take (nat ((?c - ?c2) * ?isz)) cnew) ?isz 0 (key_size d) i"
      using item_key_take[OF nn ks(1) b] by simp
    also have "\<dots> = item_key (drop (nat (?c2 * ?isz)) (content d)) ?isz 0 (key_size d) i"
      unfolding tcnew using item_key_take[OF nn ks(1) b] by simp
    also have "\<dots> = item_key (content d) ?isz 0 (key_size d) (i + nat ?c2)"
      using item_key_drop[OF nn nj, of "content d" "key_size d"] c2 by simp
    finally show ?thesis .
  qed
  have dk_new: "data_keys h' q = Some (drop (nat ?c2) ?ks)"
  proof -
    have "item_keys cnew ?isz 0 (key_size d) (nat (?c - ?c2)) =
          map (\<lambda>i. item_key (content d) ?isz 0 (key_size d) (i + nat ?c2)) [0..<nat (?c - ?c2)]"
      using key_new by (simp add: item_keys_def)
    moreover have "nat (?c - ?c2) = nat ?c - nat ?c2" using c2 by simp
    ultimately show ?thesis
      using tq by (simp add: data_keys_def new drop_item_keys)
  qed
  have ord: "\<forall>a \<in> set (the (data_keys h' p)). \<forall>b \<in> set (the (data_keys h' q)).
         cmp a b (key_size d) \<le> 0" if "keys_sorted cmp (key_size d) ?ks"
    using that sorted_wrt_take_drop[of "\<lambda>a b. cmp a b (key_size d) \<le> 0" ?ks _ "nat ?c2"]
    unfolding dk_old dk_new keys_sorted_def by auto
  have p0: "bp_data_node_get_pnext d = Some (bytes_ptr nxt)"
    using nxt by (simp add: bp_data_node_get_pnext_def bp_data_node_get_pnext_save_position_def)
  have p1: "bp_data_node_get_pnext new = Some (bytes_ptr nxt)"
    using rnew by (simp add: bp_data_node_get_pnext_def bp_data_node_get_pnext_save_position_def
        new bytes_ptr_ptr_bytes)
  have p2: "bp_data_node_get_pnext old = Some q"
    using rold by (simp add: bp_data_node_get_pnext_def bp_data_node_get_pnext_save_position_def
        old bytes_ptr_ptr_bytes)
  have sum: "key_num old + key_num new = ?c" using kold knew by simp
  show ?thesis
    using res tp tq kold knew sum dk_old dk_new ord p0 p1 p2 by blast
qed

text \<open>The full leaf \<open>full_leaf\<close>, split in a heap where \<^verbatim>\<open>malloc\<close> returns \<^verbatim>\<open>0x2000\<close>.\<close>

theorem leaf_split_correct_witness:
  "the_data (full_leaf_heap [0x2000]) 0x1000 = Some full_leaf \<and>
   data_node_wf full_leaf \<and>
   malloc (full_leaf_heap [0x2000]) = Some (0x2000, full_leaf_heap []) \<and>
   (0x2000 :: addr) \<noteq> NULL \<and>
   keys_sorted bp_compare (key_size full_leaf)
     (item_keys (content full_leaf) (key_size full_leaf + value_size full_leaf) 0
        (key_size full_leaf) (nat (key_num full_leaf))) \<and>
   (\<exists>h' old new.
      bp_data_node_split (full_leaf_heap [0x2000]) 0x1000 = Some (0, 0x2000, h') \<and>
      the_data h' 0x1000 = Some old \<and> the_data h' 0x2000 = Some new \<and>
      key_num old = 1 \<and> key_num new = 1 \<and>
      data_keys h' 0x1000 = Some [bytes_of ''1''] \<and>
      data_keys h' 0x2000 = Some [bytes_of ''2''] \<and>
      bp_compare (bytes_of ''1'') (bytes_of ''2'') 1 \<le> 0 \<and>
      bp_data_node_get_pnext full_leaf = Some 0x5000 \<and>
      bp_data_node_get_pnext new = Some 0x5000 \<and>
      bp_data_node_get_pnext old = Some 0x2000)"
proof -
  have a: "the_data (full_leaf_heap [0x2000]) 0x1000 = Some full_leaf"
    by (simp add: the_data_def full_leaf_heap_def)
  have b: "data_node_wf full_leaf"
    by (simp add: data_node_wf_def full_leaf_def bp_calc_data_node_content_len_def
        ptr_size_def bytes_of_def ptr_bytes_def)
  have c: "malloc (full_leaf_heap [0x2000]) = Some (0x2000, full_leaf_heap [])"
    by (simp add: malloc_def full_leaf_heap_def)
  have d: "(0x2000 :: addr) \<noteq> NULL" by simp
  have ks: "item_keys (content full_leaf) (key_size full_leaf + value_size full_leaf) 0
        (key_size full_leaf) (nat (key_num full_leaf)) = [bytes_of ''1'', bytes_of ''2'']"
    by code_simp
  have e: "keys_sorted bp_compare (key_size full_leaf)
     (item_keys (content full_leaf) (key_size full_leaf + value_size full_leaf) 0
        (key_size full_leaf) (nat (key_num full_leaf)))"
    by code_simp
  have kn: "key_num full_leaf = 2" "key_size full_leaf = 1" by (simp_all add: full_leaf_def)
  have nx: "bp_data_node_get_pnext full_leaf = Some 0x5000"
    by code_simp
  from leaf_split_correct [OF a b c d, of bp_compare] e
  obtain h' old new nxt where
    "bp_data_node_split (full_leaf_heap [0x2000]) 0x1000 = Some (0, 0x2000, h')"
    "the_data h' 0x1000 = Some old" "the_data h' 0x2000 = Some new"
    "key_num old = key_num full_leaf div 2"
    "key_num new = key_num full_leaf - key_num full_leaf div 2"
    "data_keys h' 0x1000 = Some (take (nat (key_num full_leaf div 2))
        (item_keys (content full_leaf) (key_size full_leaf + value_size full_leaf) 0
           (key_size full_leaf) (nat (key_num full_leaf))))"
    "data_keys h' 0x2000 = Some (drop (nat (key_num full_leaf div 2))
        (item_keys (content full_leaf) (key_size full_leaf + value_size full_leaf) 0
           (key_size full_leaf) (nat (key_num full_leaf))))"
    "\<forall>a \<in> set (the (data_keys h' 0x1000)). \<forall>b \<in> set (the (data_keys h' 0x2000)).
         bp_compare a b (key_size full_leaf) \<le> 0"
    "bp_data_node_get_pnext full_leaf = Some nxt"
    "bp_data_node_get_pnext new = Some nxt"
    "bp_data_node_get_pnext old = Some 0x2000"
    by blast
  then have "bp_data_node_split (full_leaf_heap [0x2000]) 0x1000 = Some (0, 0x2000, h') \<and>
      the_data h' 0x1000 = Some old \<and> the_data h' 0x2000 = Some new \<and>
      key_num old = 1 \<and> key_num new = 1 \<and>
      data_keys h' 0x1000 = Some [bytes_of ''1''] \<and>
      data_keys h' 0x2000 = Some [bytes_of ''2''] \<and>
      bp_compare (bytes_of ''1'') (bytes_of ''2'') 1 \<le> 0 \<and>
      bp_data_node_get_pnext full_leaf = Some 0x5000 \<and>
      bp_data_node_get_pnext new = Some 0x5000 \<and>
      bp_data_node_get_pnext old = Some 0x2000"
    using nx unfolding ks by (simp add: kn)
  then show ?thesis using a b c d e by blast
qed

subsection \<open>Claim C9\<close>

text \<open>
  C9. When the allocation of the new sibling fails, \<^verbatim>\<open>bp_data_node_split\<close> returns -1 with
  \<^verbatim>\<open>*pp_new = NULL\<close> and the nodes of the heap are what they were, the leaf included (same
  count, same bytes, same next pointer); and \<^verbatim>\<open>bp_data_node_insert_data\<close> on a leaf that
  needs the split returns -1 with \<^verbatim>\<open>*pp_new = NULL\<close>, the caller's key untouched and the
  nodes unchanged: nothing is written and no count is incremented.
\<close>

theorem leaf_split_alloc_failure:
  assumes "the_data h p = Some d" and "malloc h = Some (NULL, h')"
  shows "bp_data_node_split h p = Some (-1, NULL, h') \<and>
         nodes h' = nodes h \<and> the_data h' p = Some d \<and>
         (bp_data_node_need_split d \<longrightarrow>
            bp_data_node_insert_data h p key position = Some (-1, NULL, key, h'))"
proof -
  have cr: "bp_create_data_node h a b c e f = Some (NULL, h')" for a b c e f
    using assms(2) by (simp add: bp_create_data_node_def)
  have sp: "bp_data_node_split h p = Some (-1, NULL, h')"
    using assms(1) cr by (simp add: bp_data_node_split_def)
  have nd: "nodes h' = nodes h" using assms(2) by (rule malloc_nodes)
  then have td: "the_data h' p = Some d" using assms(1) by (simp add: the_data_def)
  have "bp_data_node_insert_data h p key position = Some (-1, NULL, key, h')"
    if "bp_data_node_need_split d"
    using that assms(1) sp by (simp add: bp_data_node_insert_data_def)
  then show ?thesis using sp nd td by blast
qed

text \<open>The full leaf \<open>full_leaf\<close> in a heap where \<^verbatim>\<open>malloc\<close> fails.\<close>

theorem leaf_split_alloc_failure_witness:
  "the_data (full_leaf_heap []) 0x1000 = Some full_leaf \<and>
   malloc (full_leaf_heap []) = Some (NULL, full_leaf_heap []) \<and>
   bp_data_node_need_split full_leaf \<and>
   bp_data_node_split (full_leaf_heap []) 0x1000 = Some (-1, NULL, full_leaf_heap []) \<and>
   bp_data_node_insert_data (full_leaf_heap []) 0x1000 (bytes_of ''3'') (bytes_of ''c'')
     = Some (-1, NULL, bytes_of ''3'', full_leaf_heap [])"
proof -
  have a: "the_data (full_leaf_heap []) 0x1000 = Some full_leaf"
    by (simp add: the_data_def full_leaf_heap_def)
  have b: "malloc (full_leaf_heap []) = Some (NULL, full_leaf_heap [])"
    by (simp add: malloc_def full_leaf_heap_def)
  have c: "bp_data_node_need_split full_leaf"
    by (simp add: bp_data_node_need_split_def full_leaf_def)
  show ?thesis
    using leaf_split_alloc_failure [OF a b, of "bytes_of ''3''" "bytes_of ''c''"] a b c by simp
qed

section \<open>The largest key of a node\<close>

lemma item_bounds:
  assumes "0 \<le> isz" "1 \<le> n" "n * isz \<le> L"
  shows "0 \<le> (n - 1) * isz" "(n - 1) * isz + isz \<le> (L::int)"
proof -
  show "0 \<le> (n - 1) * isz" using assms by simp
  show "(n - 1) * isz + isz \<le> L" using assms by (simp add: algebra_simps)
qed

lemma copy_key_prefix:
  assumes "0 \<le> off" "0 \<le> cp" "cp \<le> sz" "off + sz \<le> int (length src)" "cp \<le> int (length key_buf)"
  shows "mem_read src off cp \<bind> (\<lambda>last_key. mem_write key_buf 0 last_key \<bind> (\<lambda>buf. Some (cp, buf)))
     = Some (cp, take (nat cp) (take (nat sz) (drop (nat off) src)) @ drop (nat cp) key_buf)"
proof -
  have rd: "mem_read src off cp = Some (take (nat cp) (drop (nat off) src))"
    using assms by (simp add: mem_read_def)
  have "nat off + nat cp \<le> length src" using assms by linarith
  then have lenr: "length (take (nat cp) (drop (nat off) src)) = nat cp" by simp
  have wr: "mem_write key_buf 0 (take (nat cp) (drop (nat off) src))
     = Some (take (nat cp) (drop (nat off) src) @ drop (nat cp) key_buf)"
    using assms(2,5) unfolding mem_write_def lenr by simp
  have "take (nat cp) (take (nat sz) (drop (nat off) src)) = take (nat cp) (drop (nat off) src)"
    using assms(2,3) by (simp add: min_def)
  then show ?thesis using rd wr by simp
qed

lemma data_node_max_key_result:
  assumes d: "the_data h p = Some d" and wf: "data_node_wf d"
    and n: "1 \<le> key_num d" and len: "0 \<le> key_buf_len" "key_buf_len \<le> int (length key_buf)"
  shows "bp_data_node_max_key h p key_buf key_buf_len =
     Some (min key_buf_len (key_size d),
           take (nat (min key_buf_len (key_size d)))
             (item_key (content d) (key_size d + value_size d) 0 (key_size d) (nat (key_num d - 1)))
           @ drop (nat (min key_buf_len (key_size d))) key_buf)"
proof -
  let ?isz = "key_size d + value_size d"
  define cp where "cp = min key_buf_len (key_size d)"
  have ks: "0 \<le> key_size d" "0 \<le> value_size d" and kn: "key_num d \<le> max_key_num d"
    and L: "int (length (content d)) = max_key_num d * ?isz + ptr_size"
    using wf by (auto simp: data_node_wf_def bp_calc_data_node_content_len_def)
  have "key_num d * ?isz \<le> max_key_num d * ?isz"
    using kn ks by (intro mult_right_mono) auto
  then have fits: "key_num d * ?isz \<le> int (length (content d))"
    using L by (simp add: ptr_size_def)
  have isz: "0 \<le> ?isz" using ks by simp
  note b = item_bounds[OF isz n fits]
  have cp: "0 \<le> cp" "cp \<le> key_size d" "cp \<le> int (length key_buf)"
    using len ks by (auto simp: cp_def)
  have cpif: "(if key_buf_len < key_size d then key_buf_len else key_size d) = cp"
    by (simp add: cp_def min_def)
  have fit2: "(key_num d - 1) * ?isz + key_size d \<le> int (length (content d))"
    using b(2) ks by simp
  have idx: "int (nat (key_num d - 1)) * ?isz + 0 = (key_num d - 1) * ?isz" using n by simp
  have "bp_data_node_max_key h p key_buf key_buf_len =
     Some (cp, take (nat cp) (item_key (content d) ?isz 0 (key_size d) (nat (key_num d - 1)))
           @ drop (nat cp) key_buf)"
  proof -
    have "bp_data_node_max_key h p key_buf key_buf_len =
       mem_read (content d) ((key_num d - 1) * ?isz) cp \<bind>
         (\<lambda>last_key. mem_write key_buf 0 last_key \<bind> (\<lambda>buf. Some (cp, buf)))"
      using d n by (simp add: bp_data_node_max_key_def Let_def cpif)
    then show ?thesis
      using copy_key_prefix[OF b(1) cp(1,2) fit2 cp(3)] by (simp only: item_key_def idx)
  qed
  then show ?thesis by (simp only: cp_def)
qed

lemma inner_node_max_key_result:
  assumes d: "the_inner h q = Some i" and wf: "inner_node_wf i"
    and n: "1 \<le> key_num i" and len: "0 \<le> key_buf_len" "key_buf_len \<le> int (length key_buf)"
  shows "bp_inner_node_max_key h q key_buf key_buf_len =
     Some (min key_buf_len (inner_key_size i),
           take (nat (min key_buf_len (inner_key_size i)))
             (item_key (inner_content i) (ptr_size + inner_key_size i) ptr_size (inner_key_size i)
                (nat (key_num i - 1)))
           @ drop (nat (min key_buf_len (inner_key_size i))) key_buf)"
proof -
  let ?isz = "ptr_size + inner_key_size i"
  define cp where "cp = min key_buf_len (inner_key_size i)"
  have ks: "0 \<le> inner_key_size i" and kn: "key_num i \<le> max_key_num i"
    and L: "int (length (inner_content i)) = max_key_num i * (inner_key_size i + ptr_size) + ptr_size"
    using wf by (auto simp: inner_node_wf_def bp_calc_inner_node_content_len_def)
  have isz: "0 \<le> ?isz" using ks by (simp add: ptr_size_def)
  have "key_num i * ?isz \<le> max_key_num i * ?isz"
    using kn isz by (intro mult_right_mono) auto
  then have fits: "key_num i * ?isz \<le> int (length (inner_content i))"
    using L by (simp add: ptr_size_def add.commute)
  note b = item_bounds[OF isz n fits]
  have cp: "0 \<le> cp" "cp \<le> inner_key_size i" "cp \<le> int (length key_buf)"
    using len ks by (auto simp: cp_def)
  have cpif: "(if key_buf_len < inner_key_size i then key_buf_len else inner_key_size i) = cp"
    by (simp add: cp_def min_def)
  have off: "0 \<le> (key_num i - 1) * ?isz + ptr_size"
       "(key_num i - 1) * ?isz + ptr_size + inner_key_size i \<le> int (length (inner_content i))"
    using b by (auto simp: ptr_size_def)
  have idx: "int (nat (key_num i - 1)) * ?isz + ptr_size = (key_num i - 1) * ?isz + ptr_size"
    using n by simp
  have "bp_inner_node_max_key h q key_buf key_buf_len =
     Some (cp, take (nat cp) (item_key (inner_content i) ?isz ptr_size (inner_key_size i)
                (nat (key_num i - 1)))
           @ drop (nat cp) key_buf)"
  proof -
    have "bp_inner_node_max_key h q key_buf key_buf_len =
       mem_read (inner_content i) ((key_num i - 1) * ?isz + ptr_size) cp \<bind>
         (\<lambda>last_key. mem_write key_buf 0 last_key \<bind> (\<lambda>buf. Some (cp, buf)))"
      using d n by (simp add: bp_inner_node_max_key_def Let_def cpif)
    then show ?thesis
      using copy_key_prefix[OF off(1) cp(1,2) off(2) cp(3)] by (simp only: item_key_def idx)
  qed
  then show ?thesis by (simp only: cp_def)
qed

lemma mem_read_len: "mem_read buf off len = Some bs \<Longrightarrow> 0 \<le> len"
  by (auto simp: mem_read_def split: if_splits)

lemma data_node_max_key_error:
  assumes "the_data h p = Some d" "0 \<le> key_size d"
  shows "(\<exists>buf. bp_data_node_max_key h p key_buf key_buf_len = Some (-1, buf)) = (key_num d \<le> 0)"
proof (cases "key_num d \<le> 0")
  case True
  then show ?thesis using assms(1) by (simp add: bp_data_node_max_key_def)
next
  case False
  have "r \<noteq> -1" if "bp_data_node_max_key h p key_buf key_buf_len = Some (r, buf)" for r buf
  proof -
    from that False assms(1) obtain lk where
      "mem_read (content d) ((key_num d - 1) * (key_size d + value_size d)) r = Some lk"
      by (auto simp: bp_data_node_max_key_def Let_def split: if_splits bind_splits)
    then show ?thesis using mem_read_len by fastforce
  qed
  then show ?thesis using False by auto
qed

lemma inner_node_max_key_error:
  assumes "the_inner h q = Some i" "0 \<le> inner_key_size i"
  shows "(\<exists>buf. bp_inner_node_max_key h q key_buf key_buf_len = Some (-1, buf)) = (key_num i \<le> 0)"
proof (cases "key_num i \<le> 0")
  case True
  then show ?thesis using assms(1) by (simp add: bp_inner_node_max_key_def)
next
  case False
  have "r \<noteq> -1" if "bp_inner_node_max_key h q key_buf key_buf_len = Some (r, buf)" for r buf
  proof -
    from that False assms(1) obtain lk where
      "mem_read (inner_content i)
         ((key_num i - 1) * (ptr_size + inner_key_size i) + ptr_size) r = Some lk"
      by (auto simp: bp_inner_node_max_key_def Let_def split: if_splits bind_splits)
    then show ?thesis using mem_read_len by fastforce
  qed
  then show ?thesis using False by auto
qed

subsection \<open>Claim C10\<close>

text \<open>
  C10. For a well-formed leaf \<open>d\<close> and a well-formed inner node \<open>i\<close>: with a count of at
  least 1 and a caller's buffer that has \<open>key_buf_len \<ge> 0\<close> bytes,
  \<^verbatim>\<open>bp_data_node_max_key\<close> and \<^verbatim>\<open>bp_inner_node_max_key\<close> copy the first
  \<open>min key_buf_len key_size\<close> bytes of the last key to the start of the buffer, leave the
  rest of the buffer as it was, and return that length, also when it is smaller than the
  key size; and whatever the buffer and \<open>key_buf_len\<close> are, the result is -1 exactly when
  the count is \<open>\<le> 0\<close>.
\<close>

theorem max_key_copies_min:
  assumes "the_data h p = Some d" and "data_node_wf d"
    and "the_inner h q = Some i" and "inner_node_wf i"
  shows "(1 \<le> key_num d \<and> 0 \<le> key_buf_len \<and> key_buf_len \<le> int (length key_buf) \<longrightarrow>
            bp_data_node_max_key h p key_buf key_buf_len =
              Some (min key_buf_len (key_size d),
                    take (nat (min key_buf_len (key_size d)))
                      (item_key (content d) (key_size d + value_size d) 0 (key_size d)
                         (nat (key_num d - 1)))
                    @ drop (nat (min key_buf_len (key_size d))) key_buf)) \<and>
         (1 \<le> key_num i \<and> 0 \<le> key_buf_len \<and> key_buf_len \<le> int (length key_buf) \<longrightarrow>
            bp_inner_node_max_key h q key_buf key_buf_len =
              Some (min key_buf_len (inner_key_size i),
                    take (nat (min key_buf_len (inner_key_size i)))
                      (item_key (inner_content i) (ptr_size + inner_key_size i) ptr_size
                         (inner_key_size i) (nat (key_num i - 1)))
                    @ drop (nat (min key_buf_len (inner_key_size i))) key_buf)) \<and>
         ((\<exists>buf. bp_data_node_max_key h p key_buf key_buf_len = Some (-1, buf)) = (key_num d \<le> 0)) \<and>
         ((\<exists>buf. bp_inner_node_max_key h q key_buf key_buf_len = Some (-1, buf)) = (key_num i \<le> 0))"
proof -
  have ks: "0 \<le> key_size d" "0 \<le> inner_key_size i"
    using assms(2,4) by (auto simp: data_node_wf_def inner_node_wf_def)
  show ?thesis
    using data_node_max_key_result[OF assms(1,2)] inner_node_max_key_result[OF assms(3,4)]
      data_node_max_key_error[OF assms(1) ks(1)] inner_node_max_key_error[OF assms(3) ks(2)]
    by blast
qed

text \<open>
  The leaf \<open>full_leaf\<close> and the inner node \<open>one_key_inner\<close>, whose keys have 1 byte, asked
  for their largest key with a buffer length of 0 and of 2.
\<close>

theorem max_key_copies_min_witness:
  "the_data (full_leaf_heap []) 0x1000 = Some full_leaf \<and> data_node_wf full_leaf \<and>
   the_inner (full_leaf_heap []) 0x3000 = Some one_key_inner \<and> inner_node_wf one_key_inner \<and>
   (0::int) \<le> 0 \<and> (0::int) \<le> int (length (bytes_of ''xy'')) \<and>
   (1::int) \<le> key_num full_leaf \<and> (1::int) \<le> key_num one_key_inner \<and>
   (0::int) < key_size full_leaf \<and> (0::int) < inner_key_size one_key_inner \<and>
   bp_data_node_max_key (full_leaf_heap []) 0x1000 (bytes_of ''xy'') 0 = Some (0, bytes_of ''xy'') \<and>
   bp_inner_node_max_key (full_leaf_heap []) 0x3000 (bytes_of ''xy'') 0 = Some (0, bytes_of ''xy'') \<and>
   bp_data_node_max_key (full_leaf_heap []) 0x1000 (bytes_of ''xy'') 2 = Some (1, bytes_of ''2y'') \<and>
   bp_inner_node_max_key (full_leaf_heap []) 0x3000 (bytes_of ''xy'') 2 = Some (1, bytes_of ''2y'')"
proof -
  have a: "the_data (full_leaf_heap []) 0x1000 = Some full_leaf"
    by (simp add: the_data_def full_leaf_heap_def)
  have b: "data_node_wf full_leaf"
    by (simp add: data_node_wf_def full_leaf_def bp_calc_data_node_content_len_def
        ptr_size_def bytes_of_def ptr_bytes_def)
  have c: "the_inner (full_leaf_heap []) 0x3000 = Some one_key_inner"
    by (simp add: the_inner_def full_leaf_heap_def)
  have d: "inner_node_wf one_key_inner"
    by (simp add: inner_node_wf_def one_key_inner_def bp_calc_inner_node_content_len_def
        ptr_size_def bytes_of_def ptr_bytes_def)
  have l0: "(0::int) \<le> 0" "(0::int) \<le> int (length (bytes_of ''xy''))" by simp_all
  have l2: "(0::int) \<le> 2" "(2::int) \<le> int (length (bytes_of ''xy''))" by (simp_all add: bytes_of_def)
  have n: "(1::int) \<le> key_num full_leaf" "(1::int) \<le> key_num one_key_inner"
    "(0::int) < key_size full_leaf" "(0::int) < inner_key_size one_key_inner"
    by (simp_all add: full_leaf_def one_key_inner_def)
  have k1: "item_key (content full_leaf) (key_size full_leaf + value_size full_leaf) 0
      (key_size full_leaf) (nat (key_num full_leaf - 1)) = bytes_of ''2''"
    by code_simp
  have k2: "item_key (inner_content one_key_inner) (ptr_size + inner_key_size one_key_inner) ptr_size
      (inner_key_size one_key_inner) (nat (key_num one_key_inner - 1)) = bytes_of ''2''"
    by code_simp
  have sz: "key_size full_leaf = 1" "inner_key_size one_key_inner = 1"
    by (simp_all add: full_leaf_def one_key_inner_def)
  have r0: "bp_data_node_max_key (full_leaf_heap []) 0x1000 (bytes_of ''xy'') 0 = Some (0, bytes_of ''xy'')"
    "bp_inner_node_max_key (full_leaf_heap []) 0x3000 (bytes_of ''xy'') 0 = Some (0, bytes_of ''xy'')"
    using max_key_copies_min [OF a b c d, where key_buf_len = 0 and key_buf = "bytes_of ''xy''"] l0 n
    by (simp_all add: sz)
  have r2: "bp_data_node_max_key (full_leaf_heap []) 0x1000 (bytes_of ''xy'') 2 = Some (1, bytes_of ''2y'')"
    "bp_inner_node_max_key (full_leaf_heap []) 0x3000 (bytes_of ''xy'') 2 = Some (1, bytes_of ''2y'')"
    using max_key_copies_min [OF a b c d, where key_buf_len = 2 and key_buf = "bytes_of ''xy''"] l2 n
    unfolding k1 k2 by (simp_all add: sz bytes_of_def)
  show ?thesis using a b c d l0 n r0 r2 by blast
qed

section \<open>The scenarios of the test suite, run\<close>

subsection \<open>Claim C6\<close>

text \<open>
  C6. On a leaf of capacity 6 with keys and values of 1 byte, the inserts of
  \<^verbatim>\<open>('1','1')\<close>, \<^verbatim>\<open>('3','5')\<close>, \<^verbatim>\<open>('2','3')\<close>, \<^verbatim>\<open>('2','4')\<close>, \<^verbatim>\<open>('3','6')\<close>, \<^verbatim>\<open>('1','2')\<close> in
  that order all return 0 with \<^verbatim>\<open>*pp_new = NULL\<close>; afterwards the count is 6, the first
  12 bytes of the buffer are \<^verbatim>\<open>"111223243536"\<close>, and \<^verbatim>\<open>malloc\<close> has not been called again
  (the address \<^verbatim>\<open>0x2000\<close> is still to be handed out): no split took place.
\<close>

theorem leaf_insert_scenario:
  "do {
     (data, h) \<leftarrow> bp_create_data_node (empty_heap [0x1000, 0x2000]) 6 3 1 1 None;
     (rs, h') \<leftarrow> data_insert_seq h data
        [(''1'', ''1''), (''3'', ''5''), (''2'', ''3''), (''2'', ''4''), (''3'', ''6''), (''1'', ''2'')];
     d \<leftarrow> the_data h' data;
     Some (rs, key_num d, take 12 (content d), malloc_plan h')
   } = Some ([(0, NULL), (0, NULL), (0, NULL), (0, NULL), (0, NULL), (0, NULL)], 6,
             bytes_of ''111223243536'', [0x2000])"
  by code_simp

subsection \<open>Claim C5\<close>

text \<open>
  C5. An inner node of capacity 4 with keys of 2 bytes has a leaf of capacity 4 as its
  leading child. After the inserts of \<^verbatim>\<open>"55"\<close>, \<^verbatim>\<open>"88"\<close>, \<^verbatim>\<open>"11"\<close>, \<^verbatim>\<open>"22"\<close> through the inner
  node, the inner node has the one child with separator \<^verbatim>\<open>"88"\<close>, the leaf holds the four
  keys and no node has been allocated. The fifth insert, of \<^verbatim>\<open>"33"\<close>, returns 0 with
  \<^verbatim>\<open>*pp_new = NULL\<close> (the inner node is not split); the inner node then has the two
  children \<^verbatim>\<open>0x2000\<close> (the old leaf) and \<^verbatim>\<open>0x3000\<close> (the new leaf) with separators \<^verbatim>\<open>"22"\<close> and
  \<^verbatim>\<open>"88"\<close>, the old leaf holds \<^verbatim>\<open>"11"\<close>, \<^verbatim>\<open>"22"\<close> and the new leaf \<^verbatim>\<open>"33"\<close>, \<^verbatim>\<open>"55"\<close>, \<^verbatim>\<open>"88"\<close>.
\<close>

theorem inner_insert_scenario:
  "do {
     (head, data, h) \<leftarrow> inner_test_tree [0x1000, 0x2000, 0x3000] 4 4 2 2;
     (rs4, h4) \<leftarrow> inner_insert_seq h head
        [(''55'', ''55''), (''88'', ''88''), (''11'', ''11''), (''22'', ''22'')];
     (rs5, h5) \<leftarrow> inner_insert_seq h4 head [(''33'', ''33'')];
     Some ((rs4, inner_children h4 head, inner_keys h4 head, data_keys h4 data, malloc_plan h4),
           (rs5, head, data, inner_children h5 head, inner_keys h5 head,
            data_keys h5 data, data_keys h5 0x3000, malloc_plan h5))
   } = Some (([(0, NULL), (0, NULL), (0, NULL), (0, NULL)], Some [0x2000], Some [bytes_of ''88''],
              Some [bytes_of ''11'', bytes_of ''22'', bytes_of ''55'', bytes_of ''88''], [0x3000]),
             ([(0, NULL)], 0x1000, 0x2000, Some [0x2000, 0x3000],
              Some [bytes_of ''22'', bytes_of ''88''],
              Some [bytes_of ''11'', bytes_of ''22''],
              Some [bytes_of ''33'', bytes_of ''55'', bytes_of ''88''], []))"
  by code_simp

section \<open>Where the code departs from the specification\<close>

subsection \<open>Claim C1\<close>

text \<open>
  C1. A leaf of capacity 4 holds the keys \<^verbatim>\<open>'1'\<close>, \<^verbatim>\<open>'2'\<close>, \<^verbatim>\<open>'2'\<close>, \<^verbatim>\<open>'3'\<close>. The insert of
  \<^verbatim>\<open>('2','e')\<close> splits it into \<^verbatim>\<open>'1','2'\<close> and \<^verbatim>\<open>'2','3'\<close>: the key equals the largest key of
  the old half and the smallest key of the new half, and the code puts the item in the
  old half. In the second run the leaf holds \<^verbatim>\<open>'1'\<close>, \<^verbatim>\<open>'2'\<close>, \<^verbatim>\<open>'3'\<close>, \<^verbatim>\<open>'4'\<close>: the insert of
  \<^verbatim>\<open>('2','e')\<close> overwrites the caller's key with \<^verbatim>\<open>'3'\<close>, the smallest key of the new half,
  and stores \<^verbatim>\<open>('3','e')\<close> in the old half.
\<close>

theorem leaf_insert_equal_key_goes_to_old_half:
  "do {
     (data, h) \<leftarrow> bp_create_data_node (empty_heap [0x1000, 0x2000]) 4 2 1 1 None;
     (rs, h4) \<leftarrow> data_insert_seq h data
        [(''1'', ''a''), (''2'', ''b''), (''2'', ''c''), (''3'', ''d'')];
     (r, split, key', h5) \<leftarrow> bp_data_node_insert_data h4 data (bytes_of ''2'') (bytes_of ''e'');
     Some (data_items h4 data, r, split, data_items h5 data, data_items h5 split)
   } = Some (Some (bytes_of ''1a2b2c3d''), 0, 0x2000, Some (bytes_of ''1a2b2e''), Some (bytes_of ''2c3d''))
   \<and>
   do {
     (data, h) \<leftarrow> bp_create_data_node (empty_heap [0x1000, 0x2000]) 4 2 1 1 None;
     (rs, h4) \<leftarrow> data_insert_seq h data
        [(''1'', ''a''), (''2'', ''b''), (''3'', ''c''), (''4'', ''d'')];
     (r, split, key', h5) \<leftarrow> bp_data_node_insert_data h4 data (bytes_of ''2'') (bytes_of ''e'');
     Some (data_items h4 data, r, split, key', data_items h5 data, data_items h5 split)
   } = Some (Some (bytes_of ''1a2b3c4d''), 0, 0x2000, bytes_of ''3'',
             Some (bytes_of ''1a2b3e''), Some (bytes_of ''3c4d''))"
  by code_simp

subsection \<open>Claim C2\<close>

text \<open>
  C2. First run: the inner node of \<^verbatim>\<open>TEST(InnerNode, Insert)\<close> after its first four inserts;
  the leaf is full and \<^verbatim>\<open>malloc\<close> fails. The insert of \<^verbatim>\<open>"99"\<close> returns -1 and leaves the leaf
  as it was, but the separator of the inner node has changed from \<^verbatim>\<open>"88"\<close> to \<^verbatim>\<open>"99"\<close>.
  Second run: after ten inserts the inner node is full with four leaves and the first
  leaf \<^verbatim>\<open>0x2000\<close> is full; \<^verbatim>\<open>malloc\<close> succeeds once more and then fails. The insert of \<^verbatim>\<open>"05"\<close>
  splits that leaf, cannot allocate the sibling of the inner node, and returns 0 with
  \<^verbatim>\<open>*pp_new = NULL\<close>: the item is in the leaf, the new leaf \<^verbatim>\<open>0x6000\<close> with \<^verbatim>\<open>"30"\<close> and \<^verbatim>\<open>"40"\<close>
  is not a child of the inner node, and the separator of the first leaf is still \<^verbatim>\<open>"40"\<close>.
\<close>

theorem inner_insert_alloc_failure_not_atomic:
  "do {
     (head, data, h) \<leftarrow> inner_test_tree [0x1000, 0x2000] 4 4 2 2;
     (rs, h4) \<leftarrow> inner_insert_seq h head
        [(''55'', ''55''), (''88'', ''88''), (''11'', ''11''), (''22'', ''22'')];
     (r, split, key', h5) \<leftarrow> bp_inner_node_insert_data h4 head (bytes_of ''99'') (bytes_of ''99'');
     Some (malloc_plan h4, inner_keys h4 head, data_items h4 data,
           r, split, inner_keys h5 head, data_items h5 data)
   } = Some ([], Some [bytes_of ''88''], Some (bytes_of ''1111222255558888''),
             -1, NULL, Some [bytes_of ''99''], Some (bytes_of ''1111222255558888''))
   \<and>
   do {
     (head, data, h) \<leftarrow>
        inner_test_tree [0x1000, 0x2000, 0x3000, 0x4000, 0x5000, 0x6000] 4 4 2 2;
     (rs, h10) \<leftarrow> inner_insert_seq h head
        [(''99'', ''99''), (''90'', ''90''), (''80'', ''80''), (''70'', ''70''), (''60'', ''60''),
         (''50'', ''50''), (''40'', ''40''), (''30'', ''30''), (''20'', ''20''), (''10'', ''10'')];
     (r, split, key', h11) \<leftarrow>
        bp_inner_node_insert_data h10 head (bytes_of ''05'') (bytes_of ''05'');
     Some (malloc_plan h10, inner_children h10 head, inner_keys h10 head, data_keys h10 data,
           r, split, malloc_plan h11, inner_children h11 head, inner_keys h11 head,
           data_keys h11 data, data_keys h11 0x6000)
   } = Some ([0x6000], Some [0x2000, 0x5000, 0x4000, 0x3000],
             Some [bytes_of ''40'', bytes_of ''60'', bytes_of ''80'', bytes_of ''99''],
             Some [bytes_of ''10'', bytes_of ''20'', bytes_of ''30'', bytes_of ''40''],
             0, NULL, [], Some [0x2000, 0x5000, 0x4000, 0x3000],
             Some [bytes_of ''40'', bytes_of ''60'', bytes_of ''80'', bytes_of ''99''],
             Some [bytes_of ''05'', bytes_of ''10'', bytes_of ''20''],
             Some [bytes_of ''30'', bytes_of ''40''])"
  by code_simp

subsection \<open>Claim C8\<close>

text \<open>
  C8. The inner node that \<^verbatim>\<open>bp_create_inner_node\<close> returns has the insert operation
  installed and a null \<open>max_key\<close> pointer; a call through that pointer is undefined.
\<close>

theorem inner_node_max_key_not_installed:
  "do {
     (p, h) \<leftarrow> bp_create_inner_node (empty_heap [0x1000]) 4 2 None;
     n \<leftarrow> nodes h p;
     Some (p, node_insert_fn n, node_max_key_fn n, call_max_key h p [0, 0] 2)
   } = Some (0x1000, Some Fn_bp_inner_node_insert_data, None, None)"
  by code_simp

end
